theory Spec2Isabelle
  imports Main "HOL-Library.Multiset"
begin

section \<open>types-linq: the MoreEnumerable operators\<close>

text \<open>
  A shallow embedding of \<^verbatim>\<open>types_linq/more/more_enumerable.py\<close>.

  Python values of the element type are an arbitrary HOL type. The receiver of the
  methods that run at once (\<^verbatim>\<open>aggregate_right\<close>, \<^verbatim>\<open>for_each\<close>,
  \<^verbatim>\<open>for_each2\<close>) is a finite sequence and is modelled by the list of its elements.
  The sources of the methods that return a generator (the receiver \<^verbatim>\<open>self\<close>, the
  argument \<^verbatim>\<open>second\<close>, the arguments of \<^verbatim>\<open>interleave\<close>, a nested iterable) are
  Python iterables, which are either re-iterable collections or one-shot iterator
  objects that live in a store (section \<open>Iterables, iterators and exceptions\<close>).

  A caller-supplied function may have side effects and may raise. The side effects
  act on a world of an arbitrary type, which every call takes and returns; a raise is
  the left injection of the result.
\<close>

type_synonym ('x, 'w, 'e, 'r) callback = "'x \<Rightarrow> 'w \<Rightarrow> ('e + 'r) \<times> 'w"

text \<open>A callback without side effects: it neither reads nor writes the world.\<close>

definition pure_callback :: "('x \<Rightarrow> 'e + 'r) \<Rightarrow> ('x, 'w, 'e, 'r) callback" where
  "pure_callback k = (\<lambda>x w. (k x, w))"

subsection \<open>aggregate_right\<close>

text \<open>
  The faults of \<^verbatim>\<open>aggregate_right\<close>: the library's own empty-sequence fault and
  whatever the folding function or the result selector raises.
\<close>

datatype 'e fault = EmptySequenceFault | UserCallbackFault 'e

text \<open>
  The three call forms of \<^verbatim>\<open>aggregate_right(*args)\<close>, in the order in which the
  source tests \<^verbatim>\<open>len(args)\<close>: three arguments, two arguments, and the
  \<^verbatim>\<open>else\<close> branch with the folding function alone.
\<close>

datatype ('v, 'e) aggregate_right_args =
    Args3 'v "'v \<Rightarrow> 'v \<Rightarrow> 'e + 'v" "'v \<Rightarrow> 'e + 'v"
  | Args2 'v "'v \<Rightarrow> 'v \<Rightarrow> 'e + 'v"
  | Args1 "'v \<Rightarrow> 'v \<Rightarrow> 'e + 'v"

text \<open>
  Modelled from the spec: \<^verbatim>\<open>Enumerable.reverse\<close> (enumerable.py is not among the
  sources). The sequence with its elements in the opposite order.
\<close>

definition reverse :: "'v list \<Rightarrow> 'v list" where
  "reverse self = rev self"

text \<open>
  Modelled from the spec: \<^verbatim>\<open>Enumerable._raise_empty_sequence\<close> (enumerable.py is
  not among the sources). It raises the empty-sequence fault.
\<close>

definition raise_empty_sequence :: "'e fault + 'v" where
  "raise_empty_sequence = Inl EmptySequenceFault"

text \<open>\<^verbatim>\<open>for elem in it: seed = func(elem, seed)\<close>\<close>

fun aggregate_loop :: "('v \<Rightarrow> 'v \<Rightarrow> 'e + 'v) \<Rightarrow> 'v list \<Rightarrow> 'v \<Rightarrow> 'e fault + 'v" where
  "aggregate_loop func [] seed = Inr seed"
| "aggregate_loop func (elem # it) seed =
     (case func elem seed of
        Inl e \<Rightarrow> Inl (UserCallbackFault e)
      | Inr seed' \<Rightarrow> aggregate_loop func it seed')"

text \<open>\<^verbatim>\<open>return result_selector(seed)\<close>, after the loop.\<close>

definition aggregate_return :: "('v \<Rightarrow> 'e + 'v) \<Rightarrow> 'e fault + 'v \<Rightarrow> 'e fault + 'v" where
  "aggregate_return result_selector r =
     (case r of
        Inl f \<Rightarrow> Inl f
      | Inr seed \<Rightarrow>
          (case result_selector seed of
             Inl e \<Rightarrow> Inl (UserCallbackFault e)
           | Inr v \<Rightarrow> Inr v))"

definition aggregate_right :: "('v, 'e) aggregate_right_args \<Rightarrow> 'v list \<Rightarrow> 'e fault + 'v" where
  "aggregate_right args self =
     (let it = reverse self in
      case args of
        Args3 seed func result_selector \<Rightarrow>
          aggregate_return result_selector (aggregate_loop func it seed)
      | Args2 seed func \<Rightarrow>
          aggregate_return Inr (aggregate_loop func it seed)
      | Args1 func \<Rightarrow>
          (case it of
             [] \<Rightarrow> raise_empty_sequence
           | seed # it' \<Rightarrow> aggregate_return Inr (aggregate_loop func it' seed)))"

subsection \<open>Enumerables, generators and traversals\<close>

text \<open>What a call of \<^verbatim>\<open>next\<close> on an iterator does: it returns an element, it raises
  \<^verbatim>\<open>StopIteration\<close>, or it raises something else.\<close>

datatype ('a, 'e) outcome = Yield 'a | StopIteration | Raise 'e

text \<open>
  A generator object is a frame (the local variables and the point where the body is
  suspended) together with the body. The body, resumed on a frame, runs to the next
  \<^verbatim>\<open>yield\<close>, \<^verbatim>\<open>return\<close> or raise; \<open>None\<close> is a body that runs forever.
\<close>

type_synonym ('a, 'e, 'w, 'f) generator_body =
  "'f \<Rightarrow> 'w \<Rightarrow> ((('a, 'e) outcome \<times> 'f) \<times> 'w) option"

text \<open>
  \<^verbatim>\<open>MoreEnumerable(inner)\<close> keeps the generator function \<^verbatim>\<open>inner\<close>: calling it
  gives a generator object whose frame is \<open>created\<close> (no statement of the body has
  run) and whose body is \<open>body\<close>.
\<close>

record ('a, 'e, 'w, 'f) more_enumerable =
  created :: 'f
  body :: "('a, 'e, 'w, 'f) generator_body"

text \<open>
  Modelled from the spec: \<^verbatim>\<open>Enumerable.__iter__\<close> (enumerable.py is not among the
  sources). It calls the stored factory and returns the fresh cursor without advancing
  it.
\<close>

definition iter :: "('a, 'e, 'w, 'f) more_enumerable \<Rightarrow> 'w \<Rightarrow> 'f \<times> 'w" where
  "iter enumerable w = (created enumerable, w)"

text \<open>
  A full traversal by a consumer (\<^verbatim>\<open>for x in cursor\<close>): advance until the cursor
  stops or raises. The result is the list of the elements produced and the exception
  that ended the traversal, if one did.
\<close>

partial_function (option) drain ::
  "('a, 'e, 'w, 'f) generator_body \<Rightarrow> 'f \<Rightarrow> 'w \<Rightarrow> (('a list \<times> 'e option) \<times> 'w) option" where
  "drain next_of f w =
     (case next_of f w of
        None \<Rightarrow> None
      | Some ((out, f'), w') \<Rightarrow>
          (case out of
             StopIteration \<Rightarrow> Some (([], None), w')
           | Raise e \<Rightarrow> Some (([], Some e), w')
           | Yield x \<Rightarrow>
               Option.bind (drain next_of f' w')
                 (\<lambda>((xs, r), w''). Some ((x # xs, r), w''))))"

definition traverse ::
  "('a, 'e, 'w, 'f) more_enumerable \<Rightarrow> 'w \<Rightarrow> (('a list \<times> 'e option) \<times> 'w) option" where
  "traverse enumerable w =
     (case iter enumerable w of (cursor, w') \<Rightarrow> drain (body enumerable) cursor w')"

text \<open>
  The first \<open>n\<close> advances of one cursor, with the outcome of each.
\<close>

fun advance_n ::
  "('a, 'e, 'w, 'f) generator_body \<Rightarrow> nat \<Rightarrow> 'f \<Rightarrow> 'w
     \<Rightarrow> ((('a, 'e) outcome list \<times> 'f) \<times> 'w) option" where
  "advance_n next_of 0 f w = Some (([], f), w)"
| "advance_n next_of (Suc n) f w =
     (case next_of f w of
        None \<Rightarrow> None
      | Some ((out, f'), w') \<Rightarrow>
          (case advance_n next_of n f' w' of
             None \<Rightarrow> None
           | Some ((outs, f''), w'') \<Rightarrow> Some ((out # outs, f''), w'')))"


subsection \<open>Iterables, iterators and exceptions\<close>

text \<open>
  A Python iterable, as the generators of this file use one (\<^verbatim>\<open>iter\<close>, then
  \<^verbatim>\<open>next\<close>). It is a re-iterable collection (a list, a tuple, a range) with its
  elements, of which every call of \<^verbatim>\<open>iter\<close> gives a new iterator that starts at the
  first element; or it is a one-shot iterator object, named by its address, of which
  \<^verbatim>\<open>iter\<close> gives the object itself.
\<close>

datatype 'a iterable = Sequence "'a list" | Iterator nat

text \<open>
  What \<^verbatim>\<open>iter\<close> returns: an iterator that nothing but the caller holds, which is the
  list of the elements still to come; or the iterator object at an address, which
  whoever holds the address advances.
\<close>

datatype 'a cursor = Position "'a list" | Object nat

text \<open>
  The world that a generator runs in: the store of the iterator objects, which gives
  for each address the elements that the object has still to produce, and the world of
  the caller-supplied functions.
\<close>

record ('a, 'u) world =
  iterators :: "nat \<Rightarrow> 'a list"
  user :: 'u

text \<open>
  Modelled from the spec: the receiver \<^verbatim>\<open>self\<close> is an \<^verbatim>\<open>Enumerable\<close> that wraps a
  data source (enumerable.py is not among the sources), and \<^verbatim>\<open>iter(self)\<close> and
  \<^verbatim>\<open>for elem in self\<close> iterate the source it wraps. The receiver of a method that
  returns a generator is given as that source.
\<close>

text \<open>\<^verbatim>\<open>iter(x)\<close>\<close>

fun builtin_iter :: "'a iterable \<Rightarrow> 'a cursor" where
  "builtin_iter (Sequence xs) = Position xs"
| "builtin_iter (Iterator a) = Object a"

text \<open>
  \<^verbatim>\<open>next(it)\<close>: the element produced, or \<open>None\<close> for \<^verbatim>\<open>StopIteration\<close>, with the
  iterator as it is afterwards. Advancing an iterator object changes the store.
\<close>

fun builtin_next ::
  "'a cursor \<Rightarrow> ('a, 'u) world \<Rightarrow> ('a option \<times> 'a cursor) \<times> ('a, 'u) world" where
  "builtin_next (Position []) w = ((None, Position []), w)"
| "builtin_next (Position (x # xs)) w = ((Some x, Position xs), w)"
| "builtin_next (Object a) w =
     (case iterators w a of
        [] \<Rightarrow> ((None, Object a), w)
      | x # xs \<Rightarrow> ((Some x, Object a), w\<lparr>iterators := (iterators w)(a := xs)\<rparr>))"

text \<open>
  A call of a caller-supplied function from a generator. The function acts on the
  caller's world; it does not advance the iterators that the generator reads.
\<close>

definition call ::
  "('x, 'u, 'e, 'r) callback \<Rightarrow> 'x \<Rightarrow> ('a, 'u) world \<Rightarrow> ('e + 'r) \<times> ('a, 'u) world" where
  "call f x w = (case f x (user w) of (r, u) \<Rightarrow> (r, w\<lparr>user := u\<rparr>))"

text \<open>
  The Python exceptions that matter here: \<^verbatim>\<open>StopIteration\<close>; the
  \<^verbatim>\<open>RuntimeError('generator raised StopIteration')\<close> that the interpreter raises in its
  place at the boundary of a generator; and any other exception.
\<close>

datatype 'x exn = Exn_StopIteration | Exn_RuntimeError | Exn_Other 'x

text \<open>
  An exception that leaves the body of a generator (PEP 479): a \<^verbatim>\<open>StopIteration\<close>
  that the body does not catch is replaced by the \<^verbatim>\<open>RuntimeError\<close>; every other
  exception leaves as it is.
\<close>

fun generator_exit :: "'x exn \<Rightarrow> 'x exn" where
  "generator_exit Exn_StopIteration = Exn_RuntimeError"
| "generator_exit Exn_RuntimeError = Exn_RuntimeError"
| "generator_exit (Exn_Other x) = Exn_Other x"

text \<open>The number of elements that an iterator has still to produce (used to show that
  every loop below ends).\<close>

fun remaining :: "'a cursor \<Rightarrow> ('a, 'u) world \<Rightarrow> nat" where
  "remaining (Position xs) w = length xs"
| "remaining (Object a) w = length (iterators w a)"

subsection \<open>except_by and distinct_by\<close>

text \<open>
  The frame of \<^verbatim>\<open>except_by\<close>'s generator: not started; suspended at the
  \<^verbatim>\<open>yield\<close> with the set \<^verbatim>\<open>s\<close> of keys seen and the iterator over
  \<^verbatim>\<open>self\<close>; finished.
\<close>

datatype ('a, 'k) except_by_frame =
    EB_Created
  | EB_Suspended "'k set" "'a cursor"
  | EB_Finished

text \<open>\<^verbatim>\<open>s = {key_selector(s) for s in second}\<close>, from the iterator over \<^verbatim>\<open>second\<close>.\<close>

function except_by_keys ::
  "('a, 'u, 'e, 'k) callback \<Rightarrow> 'a cursor \<Rightarrow> 'k set \<Rightarrow> ('a, 'u) world
     \<Rightarrow> ('e + 'k set) \<times> ('a, 'u) world" where
  "except_by_keys key_selector it s w =
     (case builtin_next it w of
        ((None, it'), w') \<Rightarrow> (Inr s, w')
      | ((Some x, it'), w') \<Rightarrow>
          (case call key_selector x w' of
             (Inl e, w'') \<Rightarrow> (Inl e, w'')
           | (Inr key, w'') \<Rightarrow> except_by_keys key_selector it' (insert key s) w''))"
  by pat_completeness auto
termination
proof (relation "measure (\<lambda>(key_selector, it, s, w). remaining it w)")
  show "wf (measure (\<lambda>(key_selector, it, s, w). remaining it w))" by simp
next
  fix key_selector :: "('a, 'u, 'e, 'k) callback" and it :: "'a cursor" and s :: "'k set"
    and w :: "('a, 'u) world" and x1 w' x1a it' x x1b w'' key
  assume "(x1, w') = builtin_next it w" "(x1a, it') = x1" "x1a = Some x"
    "(x1b, w'') = call key_selector x w'" "x1b = Inr key"
  then have n: "builtin_next it w = ((Some x, it'), w')"
    and c: "call key_selector x w' = (Inr key, w'')" by simp_all
  have "remaining it' w' < remaining it w"
    using n by (cases it) (auto split: list.splits elim: builtin_next.elims)
  moreover have "remaining it' w'' = remaining it' w'"
    using c by (cases it') (auto simp: call_def split: prod.splits)
  ultimately show "((key_selector, it', insert key s, w''), (key_selector, it, s, w))
      \<in> measure (\<lambda>(key_selector, it, s, w). remaining it w)"
    by simp
qed

text \<open>
  The loop \<^verbatim>\<open>for elem in self\<close>, from the iterator's position to the next
  \<^verbatim>\<open>yield\<close>. An exception of \<^verbatim>\<open>key_selector\<close> leaves the generator.
\<close>

function except_by_loop ::
  "('a, 'u, 'x exn, 'k) callback \<Rightarrow> 'k set \<Rightarrow> 'a cursor \<Rightarrow> ('a, 'u) world
     \<Rightarrow> (('a, 'x exn) outcome \<times> ('a, 'k) except_by_frame) \<times> ('a, 'u) world" where
  "except_by_loop key_selector s it w =
     (case builtin_next it w of
        ((None, it'), w') \<Rightarrow> ((StopIteration, EB_Finished), w')
      | ((Some elem, it'), w') \<Rightarrow>
          (case call key_selector elem w' of
             (Inl e, w'') \<Rightarrow> ((Raise (generator_exit e), EB_Finished), w'')
           | (Inr key, w'') \<Rightarrow>
               (if key \<in> s then except_by_loop key_selector s it' w''
                else ((Yield elem, EB_Suspended (insert key s) it'), w''))))"
  by pat_completeness auto
termination
proof (relation "measure (\<lambda>(key_selector, s, it, w). remaining it w)")
  show "wf (measure (\<lambda>(key_selector, s, it, w). remaining it w))" by simp
next
  fix key_selector :: "('a, 'u, 'x exn, 'k) callback" and it :: "'a cursor" and s :: "'k set"
    and w :: "('a, 'u) world" and x1 w' x1a it' elem x1b w'' key
  assume "(x1, w') = builtin_next it w" "(x1a, it') = x1" "x1a = Some elem"
    "(x1b, w'') = call key_selector elem w'" "x1b = Inr key" "key \<in> s"
  then have n: "builtin_next it w = ((Some elem, it'), w')"
    and c: "call key_selector elem w' = (Inr key, w'')" by simp_all
  have "remaining it' w' < remaining it w"
    using n by (cases it) (auto split: list.splits elim: builtin_next.elims)
  moreover have "remaining it' w'' = remaining it' w'"
    using c by (cases it') (auto simp: call_def split: prod.splits)
  ultimately show "((key_selector, s, it', w''), (key_selector, s, it, w))
      \<in> measure (\<lambda>(key_selector, s, it, w). remaining it w)"
    by simp
qed

text \<open>
  The body of \<^verbatim>\<open>inner\<close>. The iterators over \<^verbatim>\<open>second\<close> and over \<^verbatim>\<open>self\<close> are
  asked for when the body starts, at every traversal anew.
\<close>

definition except_by_inner ::
  "'a iterable \<Rightarrow> 'a iterable \<Rightarrow> ('a, 'u, 'x exn, 'k) callback
     \<Rightarrow> ('a, 'x exn, ('a, 'u) world, ('a, 'k) except_by_frame) generator_body" where
  "except_by_inner self second key_selector f w =
     Some (case f of
        EB_Created \<Rightarrow>
          (case except_by_keys key_selector (builtin_iter second) {} w of
             (Inl e, w') \<Rightarrow> ((Raise (generator_exit e), EB_Finished), w')
           | (Inr s, w') \<Rightarrow> except_by_loop key_selector s (builtin_iter self) w')
      | EB_Suspended s it \<Rightarrow> except_by_loop key_selector s it w
      | EB_Finished \<Rightarrow> ((StopIteration, EB_Finished), w))"

definition except_by ::
  "'a iterable \<Rightarrow> 'a iterable \<Rightarrow> ('a, 'u, 'x exn, 'k) callback \<Rightarrow> ('a, 'u) world
     \<Rightarrow> ('a, 'x exn, ('a, 'u) world, ('a, 'k) except_by_frame) more_enumerable
         \<times> ('a, 'u) world" where
  "except_by self second key_selector w =
     (\<lparr>created = EB_Created, body = except_by_inner self second key_selector\<rparr>, w)"

text \<open>\<^verbatim>\<open>self.except_by((), key_selector)\<close>: the empty tuple is a collection without
  elements.\<close>

definition distinct_by ::
  "'a iterable \<Rightarrow> ('a, 'u, 'x exn, 'k) callback \<Rightarrow> ('a, 'u) world
     \<Rightarrow> ('a, 'x exn, ('a, 'u) world, ('a, 'k) except_by_frame) more_enumerable
         \<times> ('a, 'u) world" where
  "distinct_by self key_selector w = except_by self (Sequence []) key_selector w"

subsection \<open>for_each and for_each2\<close>

fun for_each :: "'a list \<Rightarrow> ('a, 'w, 'e, 'r) callback \<Rightarrow> 'w \<Rightarrow> ('e + unit) \<times> 'w" where
  "for_each [] action w = (Inr (), w)"
| "for_each (elem # self) action w =
     (case action elem w of
        (Inl e, w') \<Rightarrow> (Inl e, w')
      | (Inr r, w') \<Rightarrow> for_each self action w')"

text \<open>\<^verbatim>\<open>enumerate(self)\<close> with its counter \<open>i\<close>.\<close>

fun for_each2_loop ::
  "'a list \<Rightarrow> int \<Rightarrow> ('a \<Rightarrow> (int, 'w, 'e, 'r) callback) \<Rightarrow> 'w \<Rightarrow> ('e + unit) \<times> 'w" where
  "for_each2_loop [] i action w = (Inr (), w)"
| "for_each2_loop (elem # self) i action w =
     (case action elem i w of
        (Inl e, w') \<Rightarrow> (Inl e, w')
      | (Inr r, w') \<Rightarrow> for_each2_loop self (i + 1) action w')"

definition for_each2 ::
  "'a list \<Rightarrow> ('a \<Rightarrow> (int, 'w, 'e, 'r) callback) \<Rightarrow> 'w \<Rightarrow> ('e + unit) \<times> 'w" where
  "for_each2 self action w = for_each2_loop self 0 action w"

subsection \<open>flatten2 and flatten\<close>

text \<open>
  The frame of \<^verbatim>\<open>flatten2\<close>'s generator: suspended at the \<^verbatim>\<open>yield\<close>, it holds the
  current iterator \<^verbatim>\<open>it\<close> and the \<^verbatim>\<open>stack\<close> of the iterators left behind, a Python
  list whose last entry is the top.
\<close>

datatype 'a flatten2_frame =
    F2_Created
  | F2_Suspended "'a cursor" "'a cursor list"
  | F2_Finished

text \<open>
  The inner loop \<^verbatim>\<open>while True\<close> on the iterator \<^verbatim>\<open>it\<close>; when \<^verbatim>\<open>it\<close> is exhausted
  the loop breaks and the outer loop \<^verbatim>\<open>while stack\<close> pops the next iterator. The call
  of \<^verbatim>\<open>selector\<close> stands outside the \<^verbatim>\<open>try\<close>: its exception leaves the generator.
  A selector that keeps returning nested iterables makes the loop run forever: the
  result is then \<open>None\<close>.
\<close>

partial_function (option) flatten2_loop ::
  "('a, 'u, 'x exn, 'a iterable option) callback \<Rightarrow> 'a cursor \<Rightarrow> 'a cursor list
     \<Rightarrow> ('a, 'u) world
     \<Rightarrow> ((('a, 'x exn) outcome \<times> 'a flatten2_frame) \<times> ('a, 'u) world) option" where
  "flatten2_loop selector it stack w =
     (case builtin_next it w of
        ((None, it'), w') \<Rightarrow>
          (if stack \<noteq> [] then flatten2_loop selector (last stack) (butlast stack) w'
           else Some ((StopIteration, F2_Finished), w'))
      | ((Some elem, it'), w') \<Rightarrow>
          (case call selector elem w' of
             (Inl e, w'') \<Rightarrow> Some ((Raise (generator_exit e), F2_Finished), w'')
           | (Inr None, w'') \<Rightarrow> Some ((Yield elem, F2_Suspended it' stack), w'')
           | (Inr (Some nested), w'') \<Rightarrow>
               flatten2_loop selector (builtin_iter nested) (stack @ [it']) w''))"

text \<open>The outer loop \<^verbatim>\<open>while stack: it = stack.pop(); ...\<close>, entered from the start.\<close>

definition flatten2_while_stack ::
  "('a, 'u, 'x exn, 'a iterable option) callback \<Rightarrow> 'a cursor list \<Rightarrow> ('a, 'u) world
     \<Rightarrow> ((('a, 'x exn) outcome \<times> 'a flatten2_frame) \<times> ('a, 'u) world) option" where
  "flatten2_while_stack selector stack w =
     (if stack \<noteq> [] then flatten2_loop selector (last stack) (butlast stack) w
      else Some ((StopIteration, F2_Finished), w))"

text \<open>The body of \<^verbatim>\<open>inner\<close>; \<^verbatim>\<open>stack = [iter(self)]\<close> runs when the body starts.\<close>

definition flatten2_inner ::
  "'a iterable \<Rightarrow> ('a, 'u, 'x exn, 'a iterable option) callback
     \<Rightarrow> ('a, 'x exn, ('a, 'u) world, 'a flatten2_frame) generator_body" where
  "flatten2_inner self selector f w =
     (case f of
        F2_Created \<Rightarrow> flatten2_while_stack selector [builtin_iter self] w
      | F2_Suspended it stack \<Rightarrow> flatten2_loop selector it stack w
      | F2_Finished \<Rightarrow> Some ((StopIteration, F2_Finished), w))"

definition flatten2 ::
  "'a iterable \<Rightarrow> ('a, 'u, 'x exn, 'a iterable option) callback \<Rightarrow> ('a, 'u) world
     \<Rightarrow> ('a, 'x exn, ('a, 'u) world, 'a flatten2_frame) more_enumerable \<times> ('a, 'u) world" where
  "flatten2 self selector w =
     (\<lparr>created = F2_Created, body = flatten2_inner self selector\<rparr>, w)"

text \<open>
  The Python objects that \<^verbatim>\<open>flatten\<close> tells apart: a \<^verbatim>\<open>str\<close>, which is iterable;
  an object that is not iterable; and an iterable that is no \<^verbatim>\<open>str\<close>, a collection
  with its elements.
\<close>

datatype 'a pyobj = Str string | Atom 'a | Coll "'a pyobj list"

text \<open>\<^verbatim>\<open>isinstance(x, Iterable)\<close> and \<^verbatim>\<open>isinstance(x, str)\<close>\<close>

fun isinstance_Iterable :: "'a pyobj \<Rightarrow> bool" where
  "isinstance_Iterable (Str s) = True"
| "isinstance_Iterable (Atom a) = False"
| "isinstance_Iterable (Coll xs) = True"

fun isinstance_str :: "'a pyobj \<Rightarrow> bool" where
  "isinstance_str (Str s) = True"
| "isinstance_str (Atom a) = False"
| "isinstance_str (Coll xs) = False"

text \<open>What iterating an object gives: a \<^verbatim>\<open>str\<close> gives its characters, each a
  \<^verbatim>\<open>str\<close> of length one. An object that is not iterable is never iterated.\<close>

fun elements :: "'a pyobj \<Rightarrow> 'a pyobj list" where
  "elements (Str s) = map (\<lambda>c. Str [c]) s"
| "elements (Atom a) = []"
| "elements (Coll xs) = xs"

text \<open>\<^verbatim>\<open>lambda x: x if isinstance(x, Iterable) and predicate(x) else None\<close>; the object
  \<^verbatim>\<open>x\<close> that it returns is a collection, iterated anew by \<^verbatim>\<open>iter(nested)\<close>.\<close>

definition flatten_selector ::
  "('a pyobj, 'u, 'e, bool) callback
     \<Rightarrow> ('a pyobj, 'u, 'e, 'a pyobj iterable option) callback" where
  "flatten_selector predicate x u =
     (if isinstance_Iterable x then
        (case predicate x u of
           (Inl e, u') \<Rightarrow> (Inl e, u')
         | (Inr b, u') \<Rightarrow> (Inr (if b then Some (Sequence (elements x)) else None), u'))
      else (Inr None, u))"

text \<open>\<^verbatim>\<open>flatten(*args)\<close>: without an argument it calls itself with the predicate
  \<^verbatim>\<open>lambda x: not isinstance(x, str)\<close>; otherwise the first argument is the predicate.\<close>

function flatten ::
  "'a pyobj iterable \<Rightarrow> ('a pyobj, 'u, 'x exn, bool) callback list \<Rightarrow> ('a pyobj, 'u) world
     \<Rightarrow> ('a pyobj, 'x exn, ('a pyobj, 'u) world, 'a pyobj flatten2_frame) more_enumerable
         \<times> ('a pyobj, 'u) world" where
  "flatten self [] w = flatten self [pure_callback (\<lambda>x. Inr (\<not> isinstance_str x))] w"
| "flatten self (predicate # args) w = flatten2 self (flatten_selector predicate) w"
  by pat_completeness auto
termination
  by (relation "measure (\<lambda>(self, args, w). if args = [] then 1 else 0)") auto

subsection \<open>interleave\<close>

text \<open>
  The frame of \<^verbatim>\<open>interleave\<close>'s generator: suspended at the \<^verbatim>\<open>yield\<close>, it holds the
  list \<^verbatim>\<open>its\<close> of iterators and the index \<^verbatim>\<open>i\<close>, not yet incremented.
\<close>

datatype 'a interleave_frame =
    IL_Created
  | IL_Suspended "'a cursor list" nat
  | IL_Finished

text \<open>
  The inner loop \<^verbatim>\<open>while i < len(its)\<close>; when it ends, the outer loop
  \<^verbatim>\<open>while its\<close> starts the next round with \<^verbatim>\<open>i = 0\<close>. \<^verbatim>\<open>its.pop(i)\<close> removes the
  entry at index \<open>i\<close>.
\<close>

function interleave_loop ::
  "'a cursor list \<Rightarrow> nat \<Rightarrow> ('a, 'u) world
     \<Rightarrow> (('a, 'e) outcome \<times> 'a interleave_frame) \<times> ('a, 'u) world" where
  "interleave_loop its i w =
     (if i < length its then
        (case builtin_next (its ! i) w of
           ((None, it), w') \<Rightarrow> interleave_loop (take i its @ drop (Suc i) its) i w'
         | ((Some x, it), w') \<Rightarrow> ((Yield x, IL_Suspended (its[i := it]) i), w'))
      else if its \<noteq> [] then interleave_loop its 0 w
      else ((StopIteration, IL_Finished), w))"
  by pat_completeness auto
termination
  by (relation "measure (\<lambda>(its, i, w). 2 * length its + (if i < length its then 0 else 1))")
    auto

text \<open>The outer loop \<^verbatim>\<open>while its: i = 0; ...\<close>, entered from the start.\<close>

definition interleave_while_its ::
  "'a cursor list \<Rightarrow> ('a, 'u) world
     \<Rightarrow> (('a, 'e) outcome \<times> 'a interleave_frame) \<times> ('a, 'u) world" where
  "interleave_while_its its w =
     (if its \<noteq> [] then interleave_loop its 0 w else ((StopIteration, IL_Finished), w))"

text \<open>The body of \<^verbatim>\<open>inner\<close>; \<^verbatim>\<open>its = [iter(self)]\<close> and the loop
  \<^verbatim>\<open>for iter_ in iters: its.append(iter(iter_))\<close> run when the body starts.\<close>

definition interleave_inner ::
  "'a iterable \<Rightarrow> 'a iterable list
     \<Rightarrow> ('a, 'e, ('a, 'u) world, 'a interleave_frame) generator_body" where
  "interleave_inner self iters f w =
     Some (case f of
        IL_Created \<Rightarrow> interleave_while_its ([builtin_iter self] @ map builtin_iter iters) w
      | IL_Suspended its i \<Rightarrow> interleave_loop its (i + 1) w
      | IL_Finished \<Rightarrow> ((StopIteration, IL_Finished), w))"

definition interleave ::
  "'a iterable \<Rightarrow> 'a iterable list \<Rightarrow> ('a, 'u) world
     \<Rightarrow> ('a, 'e, ('a, 'u) world, 'a interleave_frame) more_enumerable \<times> ('a, 'u) world" where
  "interleave self iters w =
     (\<lparr>created = IL_Created, body = interleave_inner self iters\<rparr>, w)"

subsection \<open>traverse_breath_first and traverse_depth_first\<close>

text \<open>
  The frame of either traversal: suspended at \<^verbatim>\<open>yield elem\<close>, it holds \<^verbatim>\<open>elem\<close>,
  whose children have not been asked for yet, and the queue or the stack.
\<close>

datatype 'a traverse_frame =
    TR_Created
  | TR_Suspended 'a "'a list"
  | TR_Finished

text \<open>\<^verbatim>\<open>while queue: elem = queue.popleft(); yield elem\<close>\<close>

definition breath_first_while_queue ::
  "'a list \<Rightarrow> ('a, 'e) outcome \<times> 'a traverse_frame" where
  "breath_first_while_queue queue =
     (case queue of
        [] \<Rightarrow> (StopIteration, TR_Finished)
      | elem # queue' \<Rightarrow> (Yield elem, TR_Suspended elem queue'))"

text \<open>The body of \<^verbatim>\<open>inner\<close>. The children that \<^verbatim>\<open>children_selector\<close> returns are read
  at once, as a list; its exception leaves the generator.\<close>

definition traverse_breath_first_inner ::
  "'a \<Rightarrow> ('a, 'w, 'x exn, 'a list) callback
     \<Rightarrow> ('a, 'x exn, 'w, 'a traverse_frame) generator_body" where
  "traverse_breath_first_inner root children_selector f w =
     Some (case f of
        TR_Created \<Rightarrow> (breath_first_while_queue [root], w)
      | TR_Suspended elem queue \<Rightarrow>
          (case children_selector elem w of
             (Inl e, w') \<Rightarrow> ((Raise (generator_exit e), TR_Finished), w')
           | (Inr children, w') \<Rightarrow>
               (breath_first_while_queue
                  (foldl (\<lambda>queue child. queue @ [child]) queue children), w'))
      | TR_Finished \<Rightarrow> ((StopIteration, TR_Finished), w))"

definition traverse_breath_first ::
  "'a \<Rightarrow> ('a, 'w, 'x exn, 'a list) callback \<Rightarrow> 'w
     \<Rightarrow> ('a, 'x exn, 'w, 'a traverse_frame) more_enumerable \<times> 'w" where
  "traverse_breath_first root children_selector w =
     (\<lparr>created = TR_Created, body = traverse_breath_first_inner root children_selector\<rparr>, w)"

text \<open>\<^verbatim>\<open>while stack: elem = stack.pop(); yield elem\<close>; the top of the stack is the end of
  the Python list.\<close>

definition depth_first_while_stack ::
  "'a list \<Rightarrow> ('a, 'e) outcome \<times> 'a traverse_frame" where
  "depth_first_while_stack stack =
     (if stack \<noteq> [] then (Yield (last stack), TR_Suspended (last stack) (butlast stack))
      else (StopIteration, TR_Finished))"

definition traverse_depth_first_inner ::
  "'a \<Rightarrow> ('a, 'w, 'x exn, 'a list) callback
     \<Rightarrow> ('a, 'x exn, 'w, 'a traverse_frame) generator_body" where
  "traverse_depth_first_inner root children_selector f w =
     Some (case f of
        TR_Created \<Rightarrow> (depth_first_while_stack [root], w)
      | TR_Suspended elem stack \<Rightarrow>
          (case children_selector elem w of
             (Inl e, w') \<Rightarrow> ((Raise (generator_exit e), TR_Finished), w')
           | (Inr children, w') \<Rightarrow>
               (depth_first_while_stack
                  (foldl (\<lambda>stack child. stack @ [child]) stack (rev children)), w'))
      | TR_Finished \<Rightarrow> ((StopIteration, TR_Finished), w))"

definition traverse_depth_first ::
  "'a \<Rightarrow> ('a, 'w, 'x exn, 'a list) callback \<Rightarrow> 'w
     \<Rightarrow> ('a, 'x exn, 'w, 'a traverse_frame) more_enumerable \<times> 'w" where
  "traverse_depth_first root children_selector w =
     (\<lparr>created = TR_Created, body = traverse_depth_first_inner root children_selector\<rparr>, w)"

subsection \<open>CachedEnumerable\<close>

text \<open>
  Modelled from the spec: the source sequence of the cache test, which raises a counter
  each time it produces an element (section 8 of the specification; the test is not among
  the sources). Its iterator is the list of the elements still to come and the counter.
\<close>

record 'a counting_source =
  unpulled :: "'a list"
  produced :: nat

text \<open>Pulling the source: at the end nothing is produced and the counter stays.\<close>

definition pull :: "'a counting_source \<Rightarrow> 'a option \<times> 'a counting_source" where
  "pull s =
     (case unpulled s of
        [] \<Rightarrow> (None, s)
      | x # xs \<Rightarrow> (Some x, \<lparr>unpulled = xs, produced = produced s + 1\<rparr>))"

text \<open>
  Modelled from the spec: \<^verbatim>\<open>CachedEnumerable\<close> (cached_enumerable.py is not among the
  sources; section 4.2 of the specification). The buffer of the elements pulled so far,
  shared by all cursors; whether the underlying sequence is known to be exhausted; and
  the iterator over the underlying sequence.
\<close>

record 'a cached_enumerable =
  buffer :: "'a list"
  complete :: bool
  underlying :: "'a counting_source"

text \<open>
  Modelled from the spec: \<^verbatim>\<open>as_cached\<close> wraps a sequence; nothing is pulled yet.
\<close>

definition as_cached :: "'a list \<Rightarrow> 'a cached_enumerable" where
  "as_cached self =
     \<lparr>buffer = [], complete = False, underlying = \<lparr>unpulled = self, produced = 0\<rparr>\<rparr>"

text \<open>
  Modelled from the spec: advancing a cursor at position \<open>i\<close>. If \<open>i\<close> is less than the
  buffer length, the buffered element at \<open>i\<close> is returned; otherwise, unless the buffer is
  marked complete, exactly one element is pulled from the underlying sequence, appended
  to the buffer and returned; when the underlying sequence is exhausted the buffer is
  marked complete, and a cursor at the end then reports exhaustion (\<open>None\<close>) without
  asking the underlying sequence again.
\<close>

definition cached_advance ::
  "'a cached_enumerable \<Rightarrow> nat \<Rightarrow> ('a option \<times> nat) \<times> 'a cached_enumerable" where
  "cached_advance c i =
     (if i < length (buffer c) then ((Some (buffer c ! i), i + 1), c)
      else if complete c then ((None, i), c)
      else
        (case pull (underlying c) of
           (None, s) \<Rightarrow> ((None, i), c\<lparr>complete := True, underlying := s\<rparr>)
         | (Some x, s) \<Rightarrow> ((Some x, i + 1), c\<lparr>buffer := buffer c @ [x], underlying := s\<rparr>)))"

text \<open>
  Any number of cursors over one cached sequence, named by numbers: the position of
  each, the elements each has observed, and whether it has been told that the sequence
  is exhausted. A schedule is the list of the cursors advanced, one advance at a time.
\<close>

record 'a readers =
  cache :: "'a cached_enumerable"
  position :: "nat \<Rightarrow> nat"
  observed :: "nat \<Rightarrow> 'a list"
  exhausted :: "nat \<Rightarrow> bool"

definition start_readers :: "'a list \<Rightarrow> 'a readers" where
  "start_readers self =
     \<lparr>cache = as_cached self, position = (\<lambda>j. 0), observed = (\<lambda>j. []),
      exhausted = (\<lambda>j. False)\<rparr>"

definition reader_advance :: "nat \<Rightarrow> 'a readers \<Rightarrow> 'a readers" where
  "reader_advance j r =
     (case cached_advance (cache r) (position r j) of
        ((None, i), c) \<Rightarrow>
          r\<lparr>cache := c, position := (position r)(j := i), exhausted := (exhausted r)(j := True)\<rparr>
      | ((Some x, i), c) \<Rightarrow>
          r\<lparr>cache := c, position := (position r)(j := i),
            observed := (observed r)(j := observed r j @ [x])\<rparr>)"

fun run_readers :: "nat list \<Rightarrow> 'a readers \<Rightarrow> 'a readers" where
  "run_readers [] r = r"
| "run_readers (j # schedule) r = run_readers schedule (reader_advance j r)"

text \<open>The invariant of the cache and its cursors (a notion of the proofs).\<close>

definition cache_inv :: "'a list \<Rightarrow> 'a readers \<Rightarrow> bool" where
  "cache_inv self r \<longleftrightarrow>
     buffer (cache r) @ unpulled (underlying (cache r)) = self
     \<and> produced (underlying (cache r)) = length (buffer (cache r))
     \<and> (complete (cache r) \<longrightarrow> unpulled (underlying (cache r)) = [])
     \<and> (\<forall>j. position r j \<le> length (buffer (cache r))
            \<and> observed r j = take (position r j) self
            \<and> (exhausted r j \<longrightarrow> position r j = length self \<and> complete (cache r)))"

subsection \<open>OrderedEnumerable\<close>

text \<open>
  Modelled from the spec: \<^verbatim>\<open>OrderedEnumerable\<close> (ordered_enumerable is not among the
  sources; sections 3 and 4.4 of the specification). A sort key spec is a key-extraction
  rule, a direction and an optional custom comparator; without one the keys' natural
  order is used.
\<close>

record ('a, 'k) sort_key_spec =
  key_of :: "'a \<Rightarrow> 'k"
  is_descending :: bool
  comparator :: "('k \<Rightarrow> 'k \<Rightarrow> int) option"

text \<open>
  Modelled from the spec: an ordered sequence holds its source and the list of its sort
  key specs, the most significant first.
\<close>

record ('a, 'k) ordered_enumerable =
  ordered_source :: "'a list"
  sort_specs :: "('a, 'k) sort_key_spec list"

text \<open>
  Modelled from the spec: \<^verbatim>\<open>order_by\<close> starts the list with one spec;
  \<^verbatim>\<open>then_by(key_selector, descending, comparator)\<close> returns a new ordered sequence whose
  spec list is the receiver's with one spec appended. Neither traverses the source.
\<close>

definition order_by ::
  "'a list \<Rightarrow> ('a \<Rightarrow> 'k) \<Rightarrow> bool \<Rightarrow> ('k \<Rightarrow> 'k \<Rightarrow> int) option \<Rightarrow> ('a, 'k) ordered_enumerable" where
  "order_by self key_rule desc cmp =
     \<lparr>ordered_source = self,
      sort_specs = [\<lparr>key_of = key_rule, is_descending = desc, comparator = cmp\<rparr>]\<rparr>"

definition then_by ::
  "('a, 'k) ordered_enumerable \<Rightarrow> ('a \<Rightarrow> 'k) \<Rightarrow> bool \<Rightarrow> ('k \<Rightarrow> 'k \<Rightarrow> int) option
     \<Rightarrow> ('a, 'k) ordered_enumerable" where
  "then_by ordered key_rule desc cmp =
     \<lparr>ordered_source = ordered_source ordered,
      sort_specs = sort_specs ordered
        @ [\<lparr>key_of = key_rule, is_descending = desc, comparator = cmp\<rparr>]\<rparr>"

text \<open>
  Modelled from the spec: the comparison of one spec. The natural or the custom ordering
  of the two keys is computed first, as a negative number, zero or a positive number; a
  descending spec negates that result.
\<close>

definition natural_compare :: "'k :: linorder \<Rightarrow> 'k \<Rightarrow> int" where
  "natural_compare a b = (if a < b then - 1 else if a = b then 0 else 1)"

definition compare_spec :: "('a, 'k :: linorder) sort_key_spec \<Rightarrow> 'a \<Rightarrow> 'a \<Rightarrow> int" where
  "compare_spec spec a b =
     (let c = (case comparator spec of
                 None \<Rightarrow> natural_compare (key_of spec a) (key_of spec b)
               | Some f \<Rightarrow> f (key_of spec a) (key_of spec b))
      in if is_descending spec then - c else c)"

text \<open>
  Modelled from the spec: the composite comparator evaluates the specs in declared order
  and returns the first non-zero result; on the indexed buffer it falls back to the
  original index order as the final tie-break.
\<close>

fun compare_specs :: "('a, 'k :: linorder) sort_key_spec list \<Rightarrow> 'a \<Rightarrow> 'a \<Rightarrow> int" where
  "compare_specs [] a b = 0"
| "compare_specs (spec # specs) a b =
     (let c = compare_spec spec a b in if c \<noteq> 0 then c else compare_specs specs a b)"

definition compare_indexed ::
  "('a, 'k :: linorder) sort_key_spec list \<Rightarrow> nat \<times> 'a \<Rightarrow> nat \<times> 'a \<Rightarrow> int" where
  "compare_indexed specs p q =
     (let c = compare_specs specs (snd p) (snd q)
      in if c \<noteq> 0 then c else natural_compare (fst p) (fst q))"

text \<open>
  Modelled from the spec: the buffer is sorted with a stable algorithm; here, insertion of
  each element before the first one it does not exceed.
\<close>

fun insert_by :: "('x \<Rightarrow> 'x \<Rightarrow> int) \<Rightarrow> 'x \<Rightarrow> 'x list \<Rightarrow> 'x list" where
  "insert_by cmp x [] = [x]"
| "insert_by cmp x (y # ys) = (if cmp x y \<le> 0 then x # y # ys else y # insert_by cmp x ys)"

definition sort_by :: "('x \<Rightarrow> 'x \<Rightarrow> int) \<Rightarrow> 'x list \<Rightarrow> 'x list" where
  "sort_by cmp xs = foldr (insert_by cmp) xs []"

text \<open>
  Modelled from the spec: materialization, at each traversal. The source is traversed
  into an indexed buffer, the buffer is sorted with the composite comparator, and the
  cursor runs over the sorted buffer.
\<close>

definition ordered_iterate :: "('a, 'k :: linorder) ordered_enumerable \<Rightarrow> 'a list" where
  "ordered_iterate ordered =
     (let indexed = zip [0..<length (ordered_source ordered)] (ordered_source ordered)
      in map snd (sort_by (compare_indexed (sort_specs ordered)) indexed))"

text \<open>
  What the library assumes of a comparator: its sign is reversed when the arguments are
  swapped, and not-greater is transitive. The natural order is such a comparator.
\<close>

definition valid_comparer :: "('x \<Rightarrow> 'x \<Rightarrow> int) \<Rightarrow> bool" where
  "valid_comparer f \<longleftrightarrow>
     (\<forall>a b. (f a b < 0) = (0 < f b a))
     \<and> (\<forall>a b c. f a b \<le> 0 \<longrightarrow> f b c \<le> 0 \<longrightarrow> f a c \<le> 0)"

definition valid_spec :: "('a, 'k) sort_key_spec \<Rightarrow> bool" where
  "valid_spec spec = (case comparator spec of None \<Rightarrow> True | Some f \<Rightarrow> valid_comparer f)"

subsection \<open>What the claims say, in their own words\<close>

text \<open>
  \<^verbatim>\<open>except_by\<close> as the specification words it: walking the source in order, an
  element is yielded when its key is neither the key of an element of
  \<^verbatim>\<open>second\<close> nor the key of an element yielded before it.
\<close>

definition except_by_spec :: "('a \<Rightarrow> 'k) \<Rightarrow> 'a list \<Rightarrow> 'a list \<Rightarrow> 'a list" where
  "except_by_spec k second self =
     foldl (\<lambda>yielded x.
              if k x \<in> k ` set second \<or> k x \<in> k ` set yielded then yielded
              else yielded @ [x])
       [] self"

text \<open>
  \<^verbatim>\<open>flatten()\<close> as the specification words it: a \<^verbatim>\<open>str\<close> and an object that is not
  iterable are yielded as they are; any other iterable is descended into, at every depth.
\<close>

fun leaves :: "'a pyobj \<Rightarrow> 'a pyobj list" where
  "leaves (Str s) = [Str s]"
| "leaves (Atom a) = [Atom a]"
| "leaves (Coll xs) = concat (map leaves xs)"

text \<open>
  \<^verbatim>\<open>interleave\<close> as the specification words it: round by round, one element from
  each input that still has one, in the order of the inputs; an input that is exhausted
  drops out.
\<close>

function round_robin :: "'a list list \<Rightarrow> 'a list" where
  "round_robin inputs =
     (let live = filter (\<lambda>input. input \<noteq> []) inputs in
      if live = [] then [] else map hd live @ round_robin (map tl live))"
  by pat_completeness auto
termination
proof (relation "measure (\<lambda>inputs. sum_list (map length inputs))")
  show "wf (measure (\<lambda>inputs. sum_list (map length inputs)))" by simp
next
  fix inputs :: "'a list list" and live
  assume live: "live = filter (\<lambda>input. input \<noteq> []) inputs" and ne: "live \<noteq> []"
  have all: "\<forall>input \<in> set live. input \<noteq> []" using live by auto
  have "sum_list (map length (map tl live)) < sum_list (map length live)"
    using all ne
  proof (induction live)
    case Nil
    then show ?case by simp
  next
    case (Cons a live)
    then have "length (tl a) < length a" by (cases a) auto
    moreover have "sum_list (map length (map tl live)) \<le> sum_list (map length live)"
      by (induction live) (auto simp: le_diff_conv)
    ultimately show ?case by simp
  qed
  also have "sum_list (map length live) \<le> sum_list (map length inputs)"
    unfolding live by (induction inputs) auto
  finally show "(map tl live, inputs) \<in> measure (\<lambda>inputs. sum_list (map length inputs))"
    by simp
qed

text \<open>
  \<^verbatim>\<open>traverse_depth_first\<close> as the specification words it. The tree that
  \<^verbatim>\<open>children_selector\<close> spans from the root is a finite tree of nodes, each with the
  trees of its children in the order of \<^verbatim>\<open>children_selector\<close>; its pre-order is the
  node, then the pre-order of the first child's whole tree, then of the next sibling's.
\<close>

datatype 'a rose = Rose 'a "'a rose list"

fun root_of :: "'a rose \<Rightarrow> 'a" where
  "root_of (Rose n ts) = n"

fun preorder :: "'a rose \<Rightarrow> 'a list" where
  "preorder (Rose n ts) = n # concat (map preorder ts)"

fun spans :: "('a \<Rightarrow> 'a list) \<Rightarrow> 'a rose \<Rightarrow> bool" where
  "spans children (Rose n ts) = (children n = map root_of ts \<and> (\<forall>t \<in> set ts. spans children t))"



text \<open>\<open>at_world w r\<close> is the result \<open>r\<close> with \<open>w\<close> as the world it leaves.\<close>

definition at_world :: "'w \<Rightarrow> ('r \<times> 'w) option \<Rightarrow> ('r \<times> 'w) option" where
  "at_world w r = map_option (\<lambda>(x, _). (x, w)) r"


text \<open>
  A selector of \<^verbatim>\<open>flatten2\<close> that is a pure function and whose nested iterables are
  re-iterable collections: \<open>sel\<close> gives the elements of the nested collection.
\<close>

definition nested_collections ::
  "('a \<Rightarrow> 'e + 'a list option) \<Rightarrow> ('a, 'u, 'e, 'a iterable option) callback" where
  "nested_collections sel =
     pure_callback (\<lambda>x. case sel x of
                           Inl e \<Rightarrow> Inl e
                         | Inr None \<Rightarrow> Inr None
                         | Inr (Some xs) \<Rightarrow> Inr (Some (Sequence xs)))"

text \<open>
  The world \<open>w\<close> with the iterator object at the address \<open>a\<close> having the elements
  \<open>xs\<close> still to produce.
\<close>

definition holding :: "nat \<Rightarrow> 'a list \<Rightarrow> ('a, 'u) world \<Rightarrow> ('a, 'u) world" where
  "holding a xs w = w\<lparr>iterators := (iterators w)(a := xs)\<rparr>"

subsection \<open>Functions of the proofs\<close>

text \<open>The elements that the loop of \<^verbatim>\<open>except_by\<close> yields from an iterator position,
  given the set of keys seen so far (a function of the proofs only).\<close>

fun except_from :: "('a \<Rightarrow> 'k) \<Rightarrow> 'k set \<Rightarrow> 'a list \<Rightarrow> 'a list" where
  "except_from k s [] = []"
| "except_from k s (x # xs) =
     (if k x \<in> s then except_from k s xs else x # except_from k (insert (k x) s) xs)"

text \<open>
  What a full traversal of \<^verbatim>\<open>except_by\<close> produces from a suspended frame whose
  iterator reads a collection, as one total recursion over the elements still to come
  (the traversal itself is \<open>drain\<close>).
\<close>

fun except_by_run ::
  "('a, 'u, 'x exn, 'k) callback \<Rightarrow> 'k set \<Rightarrow> 'a list \<Rightarrow> ('a, 'u) world
     \<Rightarrow> ('a list \<times> 'x exn option) \<times> ('a, 'u) world" where
  "except_by_run key_selector s [] w = (([], None), w)"
| "except_by_run key_selector s (elem # it) w =
     (case call key_selector elem w of
        (Inl e, w') \<Rightarrow> (([], Some (generator_exit e)), w')
      | (Inr key, w') \<Rightarrow>
          (if key \<in> s then except_by_run key_selector s it w'
           else (case except_by_run key_selector (insert key s) it w' of
                   ((ys, r), w'') \<Rightarrow> ((elem # ys, r), w''))))"

text \<open>
  A cursor of \<^verbatim>\<open>flatten2\<close> with more work below it. The bottom iterator of the
  cursor (the current iterator when the stack is empty, the first entry of the stack
  otherwise) reads a collection; the elements \<open>rest\<close> follow its elements, on top of the
  stack \<open>stack\<close>.
\<close>

fun extend :: "'a cursor \<Rightarrow> 'a list \<Rightarrow> 'a cursor" where
  "extend (Position xs) rest = Position (xs @ rest)"
| "extend (Object a) rest = Object a"

fun is_Position :: "'a cursor \<Rightarrow> bool" where
  "is_Position (Position xs) = True"
| "is_Position (Object a) = False"

definition bottom :: "'a cursor \<Rightarrow> 'a cursor list \<Rightarrow> 'a cursor" where
  "bottom it st = (if st = [] then it else hd st)"

definition below_it :: "'a cursor \<Rightarrow> 'a cursor list \<Rightarrow> 'a list \<Rightarrow> 'a cursor" where
  "below_it it st rest = (if st = [] then extend it rest else it)"

definition below_stack ::
  "'a cursor list \<Rightarrow> 'a list \<Rightarrow> 'a cursor list \<Rightarrow> 'a cursor list" where
  "below_stack st rest stack = (if st = [] then stack else stack @ [extend (hd st) rest] @ tl st)"

fun below_frame :: "'a list \<Rightarrow> 'a cursor list \<Rightarrow> 'a flatten2_frame \<Rightarrow> 'a flatten2_frame" where
  "below_frame rest stack (F2_Suspended it st) =
     F2_Suspended (below_it it st rest) (below_stack st rest stack)"
| "below_frame rest stack f = f"

text \<open>Elements produced before a traversal's result.\<close>

definition prepend ::
  "'a list \<Rightarrow> (('a list \<times> 'e option) \<times> 'w) \<Rightarrow> (('a list \<times> 'e option) \<times> 'w)" where
  "prepend ys r = (case r of ((xs, e), w) \<Rightarrow> ((ys @ xs, e), w))"

text \<open>The selector that \<^verbatim>\<open>flatten()\<close> hands to \<^verbatim>\<open>flatten2\<close> (an abbreviation of the
  proofs).\<close>

definition not_str_selector :: "('a pyobj, 'u, 'e, 'a pyobj iterable option) callback" where
  "not_str_selector = flatten_selector (pure_callback (\<lambda>x. Inr (\<not> isinstance_str x)))"

text \<open>What is still to come when the loop of \<^verbatim>\<open>interleave\<close> stands at index \<open>i\<close> of a
  round (a function of the proofs).\<close>

definition remaining_round :: "'a list list \<Rightarrow> nat \<Rightarrow> 'a list" where
  "remaining_round its i =
     map hd (filter (\<lambda>it. it \<noteq> []) (drop i its))
       @ round_robin (take i its @ map tl (filter (\<lambda>it. it \<noteq> []) (drop i its)))"




text \<open>
  A generator body that, on the frames of \<open>I\<close>, gives an outcome and a next frame that
  do not depend on the world, leaves the world as it is, and stays in \<open>I\<close> (a notion of
  the proofs).
\<close>

definition world_independent ::
  "('f \<Rightarrow> bool) \<Rightarrow> ('a, 'e, 'w, 'f) generator_body \<Rightarrow> bool" where
  "world_independent I next_of \<longleftrightarrow>
     (\<forall>f w w'. I f \<longrightarrow> next_of f w' = at_world w' (next_of f w))
     \<and> (\<forall>f w out f' w1. I f \<longrightarrow> next_of f w = Some ((out, f'), w1) \<longrightarrow> I f')"

subsection \<open>Examples\<close>

text \<open>Callbacks over natural numbers whose world counts or sums what they were called
  with; each raises the exception \<open>e\<close> on one input.\<close>

definition example_key_selector :: "string exn \<Rightarrow> (nat, nat, string exn, nat) callback" where
  "example_key_selector e x u = (if x = 3 then Inl e else Inr (x mod 2), u + 1)"

definition example_action :: "string exn \<Rightarrow> (nat, nat, string exn, unit) callback" where
  "example_action e x w = (if x = 3 then Inl e else Inr (), w + x)"

definition example_action2 :: "string exn \<Rightarrow> nat \<Rightarrow> (int, nat, string exn, unit) callback" where
  "example_action2 e x i w = (if i = 2 then Inl e else Inr (), w + x)"

definition example_selector ::
  "string exn \<Rightarrow> (nat, nat, string exn, nat iterable option) callback" where
  "example_selector e x u =
     (if x = 3 then Inl e
      else if x = 0 then Inr (Some (Sequence [7, 8])) else Inr None, u + 1)"



text \<open>A world without iterator objects, and a world whose one iterator object, at
  address 0, has the elements \<open>xs\<close> still to produce.\<close>

definition no_iterators :: "'u \<Rightarrow> ('a, 'u) world" where
  "no_iterators u = \<lparr>iterators = (\<lambda>a. []), user = u\<rparr>"

definition one_iterator :: "'a list \<Rightarrow> 'u \<Rightarrow> ('a, 'u) world" where
  "one_iterator xs u = \<lparr>iterators = (\<lambda>a. if a = 0 then xs else []), user = u\<rparr>"




text \<open>An example: node 1 has the children 2 and 3, node 2 has the child 4.\<close>

definition example_children :: "nat \<Rightarrow> nat list" where
  "example_children n = (if n = 1 then [2, 3] else if n = 2 then [4] else [])"

definition example_tree :: "nat rose" where
  "example_tree = Rose 1 [Rose 2 [Rose 4 []], Rose 3 []]"

section \<open>Properties\<close>

subsection \<open>aggregate_right and the empty source\<close>

lemma aggregate_loop_not_empty_fault:
  "aggregate_loop func it seed \<noteq> Inl EmptySequenceFault"
  by (induction it arbitrary: seed) (auto split: sum.splits)

lemma aggregate_return_not_empty_fault:
  "r \<noteq> Inl EmptySequenceFault \<Longrightarrow> aggregate_return rs r \<noteq> Inl EmptySequenceFault"
  by (auto simp: aggregate_return_def split: sum.splits)

text \<open>
  Claim C5. \<^verbatim>\<open>aggregate_right\<close> raises the empty-sequence fault exactly when it is
  called with the folding function alone on an empty source. With a seed (two or three
  arguments) an empty source does not fault: the result is the seed itself, or, with a
  result selector, whatever the result selector returns for the seed.
\<close>

theorem aggregate_right_empty_fault:
  "(aggregate_right args self = Inl EmptySequenceFault
      \<longleftrightarrow> (\<exists>func. args = Args1 func) \<and> self = [])
   \<and> aggregate_right (Args2 seed func2) [] = Inr seed
   \<and> aggregate_right (Args3 seed func3 result_selector) []
       = (case result_selector seed of
            Inl e \<Rightarrow> Inl (UserCallbackFault e)
          | Inr v \<Rightarrow> Inr v)"
proof (intro conjI)
  show "aggregate_right args self = Inl EmptySequenceFault
      \<longleftrightarrow> (\<exists>func. args = Args1 func) \<and> self = []"
  proof (cases args)
    case (Args3 seed func rs)
    then show ?thesis
      by (simp add: aggregate_right_def aggregate_return_not_empty_fault
          aggregate_loop_not_empty_fault)
  next
    case (Args2 seed func)
    then show ?thesis
      by (simp add: aggregate_right_def aggregate_return_not_empty_fault
          aggregate_loop_not_empty_fault)
  next
    case (Args1 func)
    then show ?thesis
      by (cases "rev self")
        (simp_all add: aggregate_right_def reverse_def raise_empty_sequence_def
          aggregate_return_not_empty_fault aggregate_loop_not_empty_fault)
  qed
next
  show "aggregate_right (Args2 seed func2) [] = Inr seed"
    by (simp add: aggregate_right_def reverse_def aggregate_return_def)
next
  show "aggregate_right (Args3 seed func3 result_selector) []
       = (case result_selector seed of
            Inl e \<Rightarrow> Inl (UserCallbackFault e)
          | Inr v \<Rightarrow> Inr v)"
    by (simp add: aggregate_right_def reverse_def aggregate_return_def)
qed

subsection \<open>Traversals\<close>

lemma drain_cong:
  "next_of f w = next_of g v \<Longrightarrow> drain next_of f w = drain next_of g v"
  by (simp add: drain.simps[of next_of f w] drain.simps[of next_of g v])

subsection \<open>Iterators over collections\<close>

declare except_by_keys.simps [simp del]
declare except_by_loop.simps [simp del]

lemma call_pure [simp]: "call (pure_callback k) x w = (k x, w)"
  by (simp add: call_def pure_callback_def)

lemma except_by_keys_Nil [simp]:
  "except_by_keys key_selector (Position []) s w = (Inr s, w)"
  by (simp add: except_by_keys.simps[of _ "Position []"])

lemma except_by_keys_Cons [simp]:
  "except_by_keys key_selector (Position (x # second)) s w =
     (case call key_selector x w of
        (Inl e, w') \<Rightarrow> (Inl e, w')
      | (Inr key, w') \<Rightarrow> except_by_keys key_selector (Position second) (insert key s) w')"
  by (simp add: except_by_keys.simps[of _ "Position (x # second)"])

lemma except_by_loop_Nil [simp]:
  "except_by_loop key_selector s (Position []) w = ((StopIteration, EB_Finished), w)"
  by (simp add: except_by_loop.simps[of _ _ "Position []"])

lemma except_by_loop_Cons:
  "except_by_loop key_selector s (Position (elem # it)) w =
     (case call key_selector elem w of
        (Inl e, w') \<Rightarrow> ((Raise (generator_exit e), EB_Finished), w')
      | (Inr key, w') \<Rightarrow>
          (if key \<in> s then except_by_loop key_selector s (Position it) w'
           else ((Yield elem, EB_Suspended (insert key s) (Position it)), w')))"
  by (simp add: except_by_loop.simps[of _ _ "Position (elem # it)"])

subsection \<open>The worlds of the examples\<close>

lemma one_iterator_simps [simp]:
  "iterators (one_iterator xs u) 0 = xs"
  "user (one_iterator xs u) = u"
  "(one_iterator xs u)\<lparr>iterators := (iterators (one_iterator xs u))(0 := ys)\<rparr> = one_iterator ys u"
  "(one_iterator xs u)\<lparr>user := u'\<rparr> = one_iterator xs u'"
  by (auto simp: one_iterator_def)

lemma no_iterators_simps [simp]:
  "iterators (no_iterators u) a = []"
  "user (no_iterators u) = u"
  "(no_iterators u)\<lparr>user := u'\<rparr> = no_iterators u'"
  by (auto simp: no_iterators_def)

lemma no_iterators_eq [simp]: "no_iterators u = no_iterators u' \<longleftrightarrow> u = u'"
  by (auto simp: no_iterators_def)

lemma one_iterator_eq [simp]:
  "one_iterator xs u = one_iterator ys u' \<longleftrightarrow> xs = ys \<and> u = u'"
proof
  assume eq: "one_iterator xs u = one_iterator ys u'"
  then have "iterators (one_iterator xs u) 0 = iterators (one_iterator ys u') 0"
    and "user (one_iterator xs u) = user (one_iterator ys u')"
    by simp_all
  then show "xs = ys \<and> u = u'" by simp
qed simp

subsection \<open>except_by with a pure key selector\<close>

lemma except_by_keys_pure:
  "except_by_keys (pure_callback (\<lambda>x. Inr (k x))) (Position second) s w
     = (Inr (s \<union> k ` set second), w)"
  by (induction second arbitrary: s) simp_all

lemma except_by_loop_pure:
  "except_by_loop (pure_callback (\<lambda>x. Inr (k x))) s (Position (x # it)) w =
     (if k x \<in> s then except_by_loop (pure_callback (\<lambda>x. Inr (k x))) s (Position it) w
      else ((Yield x, EB_Suspended (insert (k x) s) (Position it)), w))"
  by (simp add: except_by_loop_Cons)

lemma drain_except_by_loop:
  "drain (except_by_inner (Sequence self) (Sequence second) (pure_callback (\<lambda>x. Inr (k x)))) (EB_Suspended s (Position it)) w
     = Some ((except_from k s it, None), w)"
  (is "drain ?body _ _ = _")
proof (induction it arbitrary: s)
  case Nil
  show ?case
    by (subst drain.simps) (simp add: except_by_inner_def)
next
  case (Cons x it)
  show ?case
  proof (cases "k x \<in> s")
    case True
    have "?body (EB_Suspended s (Position (x # it))) w = ?body (EB_Suspended s (Position it)) w"
      using True by (simp add: except_by_inner_def except_by_loop_pure)
    then have "drain ?body (EB_Suspended s (Position (x # it))) w
        = drain ?body (EB_Suspended s (Position it)) w"
      by (rule drain_cong)
    then show ?thesis using True by (simp add: Cons.IH)
  next
    case False
    then show ?thesis
      by (subst drain.simps)
        (simp add: except_by_inner_def except_by_loop_pure Cons.IH)
  qed
qed

lemma foldl_except_from:
  "foldl (\<lambda>yielded x. if k x \<in> A \<or> k x \<in> k ` set yielded then yielded else yielded @ [x]) acc xs
     = acc @ except_from k (A \<union> k ` set acc) xs"
  by (induction xs arbitrary: acc) (simp_all add: Un_commute insert_commute)

lemma except_from_closed:
  "except_from k s xs =
     map (\<lambda>i. xs ! i)
       (filter (\<lambda>i. k (xs ! i) \<notin> s \<and> k (xs ! i) \<notin> k ` set (take i xs)) [0..<length xs])"
proof (induction xs arbitrary: s)
  case Nil
  show ?case by simp
next
  case (Cons x xs)
  have upt: "[0..<length (x # xs)] = 0 # map Suc [0..<length xs]"
    by (simp add: upt_conv_Cons map_Suc_upt del: upt_Suc)
  let ?P = "\<lambda>s i. k (xs ! i) \<notin> s \<and> k (xs ! i) \<notin> k ` set (take i xs)"
  have tl: "except_from k s' xs = map (\<lambda>i. xs ! i) (filter (?P s') [0..<length xs])" for s'
    by (rule Cons)
  show ?case
  proof (cases "k x \<in> s")
    case True
    have "filter (?P s) [0..<length xs]
        = filter (\<lambda>i. k (xs ! i) \<notin> s \<and> k (xs ! i) \<noteq> k x \<and> k (xs ! i) \<notin> k ` set (take i xs))
            [0..<length xs]"
      using True by (intro filter_cong) auto
    then show ?thesis
      unfolding upt using True
      by (simp add: tl filter_map o_def insert_absorb del: upt_Suc)
  next
    case False
    then show ?thesis
      unfolding upt
      by (simp add: tl filter_map o_def conj_ac del: upt_Suc)
  qed
qed

lemma except_from_keys_distinct: "distinct (map k (except_from k s xs)) \<and> k ` set (except_from k s xs) = k ` set xs - s"
  by (induction xs arbitrary: s) auto


lemma traverse_except_by:
  "traverse (fst (except_by (Sequence self) (Sequence second) (pure_callback (\<lambda>x. Inr (k x))) w)) w'
     = Some ((except_by_spec k second self, None), w')"
proof -
  have "traverse (fst (except_by (Sequence self) (Sequence second) (pure_callback (\<lambda>x. Inr (k x))) w)) w'
      = drain (except_by_inner (Sequence self) (Sequence second) (pure_callback (\<lambda>x. Inr (k x)))) EB_Created w'"
    by (simp add: traverse_def except_by_def iter_def)
  also have "\<dots> = drain (except_by_inner (Sequence self) (Sequence second) (pure_callback (\<lambda>x. Inr (k x))))
       (EB_Suspended (k ` set second) (Position self)) w'"
    by (rule drain_cong) (simp add: except_by_inner_def except_by_keys_pure)
  also have "\<dots> = Some ((except_from k (k ` set second) self, None), w')"
    by (rule drain_except_by_loop)
  finally show ?thesis
    by (simp add: except_by_spec_def foldl_except_from)
qed


text \<open>
  Claim C4. With a key selector that is a pure total function \<open>k\<close>, a full traversal
  of \<^verbatim>\<open>except_by(second, key_selector)\<close> over collections (the receiver with the
  elements \<open>self\<close>, the argument with the elements \<open>second\<close>) ends normally and has
  produced exactly
  the source elements whose key is neither the key of an element of \<^verbatim>\<open>second\<close>
  nor the key of an element yielded before, in source order. Equivalently, the element at
  source position \<open>i\<close> is produced when its key is no key of \<^verbatim>\<open>second\<close> and no key of
  an earlier source element, so each key is produced at most once, on its first
  occurrence. \<^verbatim>\<open>distinct_by\<close> is \<^verbatim>\<open>except_by\<close> with an empty \<^verbatim>\<open>second\<close>.
\<close>

theorem except_by_yields:
  "traverse (fst (except_by (Sequence self) (Sequence second) (pure_callback (\<lambda>x. Inr (k x))) w)) w'
     = Some ((except_by_spec k second self, None), w')
   \<and> except_by_spec k second self
       = map (\<lambda>i. self ! i)
           (filter (\<lambda>i. k (self ! i) \<notin> k ` set second \<and> k (self ! i) \<notin> k ` set (take i self))
              [0..<length self])
   \<and> distinct (map k (except_by_spec k second self))
   \<and> k ` set (except_by_spec k second self) = k ` set self - k ` set second
   \<and> distinct_by (Sequence self) key_selector w
       = except_by (Sequence self) (Sequence []) key_selector w"
proof (intro conjI)
  show "traverse (fst (except_by (Sequence self) (Sequence second) (pure_callback (\<lambda>x. Inr (k x))) w)) w'
     = Some ((except_by_spec k second self, None), w')"
    by (rule traverse_except_by)
  have spec: "except_by_spec k second self = except_from k (k ` set second) self"
    by (simp add: except_by_spec_def foldl_except_from)
  show "except_by_spec k second self
       = map (\<lambda>i. self ! i)
           (filter (\<lambda>i. k (self ! i) \<notin> k ` set second \<and> k (self ! i) \<notin> k ` set (take i self))
              [0..<length self])"
    unfolding spec by (rule except_from_closed)
  show "distinct (map k (except_by_spec k second self))"
    unfolding spec using except_from_keys_distinct [of k "k ` set second" self] by simp
  show "k ` set (except_by_spec k second self) = k ` set self - k ` set second"
    unfolding spec using except_from_keys_distinct [of k "k ` set second" self] by simp
  show "distinct_by (Sequence self) key_selector w
       = except_by (Sequence self) (Sequence []) key_selector w"
    by (simp add: distinct_by_def)
qed

subsection \<open>Traversals, continued\<close>

lemma drain_Stop:
  "next_of f w = Some ((StopIteration, f'), w') \<Longrightarrow> drain next_of f w = Some (([], None), w')"
  by (simp add: drain.simps[of next_of f w])

lemma drain_Raise:
  "next_of f w = Some ((Raise e, f'), w') \<Longrightarrow> drain next_of f w = Some (([], Some e), w')"
  by (simp add: drain.simps[of next_of f w])

lemma drain_Yield:
  "next_of f w = Some ((Yield x, f'), w') \<Longrightarrow>
   drain next_of f w =
     Option.bind (drain next_of f' w') (\<lambda>((xs, r), w''). Some ((x # xs, r), w''))"
  by (simp add: drain.simps[of next_of f w])

lemma drain_None:
  "next_of f w = None \<Longrightarrow> drain next_of f w = None"
  by (simp add: drain.simps[of next_of f w])

lemma drain_agree_Some:
  assumes "drain n1 f w = Some y"
    and "I f"
    and agree: "\<And>f w. I f \<Longrightarrow> n2 f w = n1 f w"
    and pres: "\<And>f w out f' w'. I f \<Longrightarrow> n1 f w = Some ((out, f'), w') \<Longrightarrow> I f'"
  shows "drain n2 f w = Some y"
proof -
  have "n = n1 \<longrightarrow> I f \<longrightarrow> drain n2 f w = Some y" if "drain n f w = Some y" for n
    using that
  proof (induction n f w y rule: drain.raw_induct[rotated 1, consumes 1])
    case (1 drain' n f w y)
    show ?case
    proof (intro impI)
      assume n: "n = n1" and I: "I f"
      from 1(2) obtain out f' w' where step: "n1 f w = Some ((out, f'), w')"
        unfolding n by (cases "n1 f w") auto
      have I': "I f'" using pres[OF I step] .
      have step2: "n2 f w = Some ((out, f'), w')" using agree[OF I] step by simp
      show "drain n2 f w = Some y"
      proof (cases out)
        case StopIteration
        then show ?thesis using 1(2) step step2 n by (simp add: drain_Stop)
      next
        case (Raise e)
        then show ?thesis using 1(2) step step2 n by (simp add: drain_Raise)
      next
        case (Yield x)
        with 1(2) step n obtain r where r: "drain' n1 f' w' = Some r"
          and y: "y = (case r of ((xs, e), w'') \<Rightarrow> ((x # xs, e), w''))"
          by (auto simp: bind_eq_Some_conv split: prod.splits)
        from 1(1)[OF r] I' have "drain n2 f' w' = Some r" by simp
        then show ?thesis using Yield step2 y by (simp add: drain_Yield split: prod.splits)
      qed
    qed
  qed
  with assms(1,2) show ?thesis by blast
qed

lemma drain_agree:
  assumes "I f"
    and agree: "\<And>f w. I f \<Longrightarrow> n2 f w = n1 f w"
    and pres: "\<And>f w out f' w'. I f \<Longrightarrow> n1 f w = Some ((out, f'), w') \<Longrightarrow> I f'"
  shows "drain n2 f w = drain n1 f w"
proof (cases "drain n1 f w")
  case (Some y)
  have "drain n2 f w = Some y"
    by (rule drain_agree_Some[where ?n1.0 = n1 and I = I, OF Some assms(1)])
      (use agree pres in blast)+
  with Some show ?thesis by simp
next
  case None
  show ?thesis
  proof (cases "drain n2 f w")
    case (Some y)
    have "drain n1 f w = Some y"
    proof (rule drain_agree_Some[where ?n1.0 = n2 and I = I, OF Some assms(1)])
      show "n1 f w = n2 f w" if "I f" for f w using agree[OF that] by simp
      show "I f'" if "I f" "n2 f w = Some ((out, f'), w')" for f w out f' w'
        using pres[of f w out f' w'] agree[of f w] that by simp
    qed
    with None show ?thesis by simp
  next
    case None': None
    with None show ?thesis by simp
  qed
qed

lemma drain_Yield_Some:
  "next_of f w = Some ((Yield x, f'), w') \<Longrightarrow>
   drain next_of f' w' = Some ((xs, r), w'') \<Longrightarrow>
   drain next_of f w = Some ((x # xs, r), w'')"
  by (simp add: drain.simps[of next_of f w])

lemma drain_except_by_run:
  "drain (except_by_inner self second key_selector) (EB_Suspended s (Position it)) w
     = Some (except_by_run key_selector s it w)"
  (is "drain ?body _ _ = _")
proof (induction it arbitrary: s w)
  case Nil
  show ?case by (simp add: drain_Stop except_by_inner_def)
next
  case (Cons x it)
  obtain r w' where ks: "call key_selector x w = (r, w')" by (cases "call key_selector x w")
  show ?case
  proof (cases r)
    case (Inl e)
    have "drain ?body (EB_Suspended s (Position (x # it))) w
        = Some (([], Some (generator_exit e)), w')"
      by (rule drain_Raise) (simp add: except_by_inner_def except_by_loop_Cons ks Inl)
    then show ?thesis using ks Inl by simp
  next
    case (Inr key)
    show ?thesis
    proof (cases "key \<in> s")
      case True
      have "drain ?body (EB_Suspended s (Position (x # it))) w
          = drain ?body (EB_Suspended s (Position it)) w'"
        by (rule drain_cong) (simp add: except_by_inner_def except_by_loop_Cons ks Inr True)
      then show ?thesis using ks Inr True Cons.IH by simp
    next
      case False
      obtain ys r' w'' where run: "except_by_run key_selector (insert key s) it w' = ((ys, r'), w'')"
        by (metis surj_pair)
      have "drain ?body (EB_Suspended s (Position (x # it))) w = Some ((x # ys, r'), w'')"
      proof (rule drain_Yield_Some)
        show "?body (EB_Suspended s (Position (x # it))) w
            = Some ((Yield x, EB_Suspended (insert key s) (Position it)), w')"
          by (simp add: except_by_inner_def except_by_loop_Cons ks Inr False)
        show "drain ?body (EB_Suspended (insert key s) (Position it)) w' = Some ((ys, r'), w'')"
          by (simp add: Cons.IH run)
      qed
      then show ?thesis using ks Inr False run by simp
    qed
  qed
qed

lemma traverse_except_by_run:
  "traverse (fst (except_by (Sequence self) second key_selector w0)) w =
     Some (case except_by_keys key_selector (builtin_iter second) {} w of
             (Inl e, w') \<Rightarrow> (([], Some (generator_exit e)), w')
           | (Inr s, w') \<Rightarrow> except_by_run key_selector s self w')"
  (is "?lhs = _")
proof -
  let ?body = "except_by_inner (Sequence self) second key_selector"
  have lhs: "?lhs = drain ?body EB_Created w"
    by (simp add: traverse_def except_by_def iter_def)
  obtain r w' where keys: "except_by_keys key_selector (builtin_iter second) {} w = (r, w')"
    by (cases "except_by_keys key_selector (builtin_iter second) {} w")
  show ?thesis
  proof (cases r)
    case (Inl e)
    have "drain ?body EB_Created w = Some (([], Some (generator_exit e)), w')"
      by (rule drain_Raise) (simp add: except_by_inner_def keys Inl)
    then show ?thesis using keys Inl lhs by simp
  next
    case (Inr s)
    have "drain ?body EB_Created w = drain ?body (EB_Suspended s (Position self)) w'"
      by (rule drain_cong) (simp add: except_by_inner_def keys Inr)
    then show ?thesis
      using keys Inr lhs by (simp add: drain_except_by_run)
  qed
qed

lemma except_by_run_fault:
  "except_by_run key_selector s pre w = ((ys, None), w1) \<Longrightarrow>
   call key_selector x w1 = (Inl e, w2) \<Longrightarrow>
   except_by_run key_selector s (pre @ x # post) w = ((ys, Some (generator_exit e)), w2)"
proof (induction pre arbitrary: s w ys)
  case Nil
  then show ?case by simp
next
  case (Cons p pre)
  then show ?case
    by (auto split: prod.splits sum.splits if_splits)
qed

lemma for_each_fault:
  "for_each pre action w = (Inr (), w1) \<Longrightarrow>
   action x w1 = (Inl e, w2) \<Longrightarrow>
   for_each (pre @ x # post) action w = (Inl e, w2)"
  by (induction pre arbitrary: w) (auto split: prod.splits sum.splits)

lemma for_each2_loop_fault:
  "for_each2_loop pre i action w = (Inr (), w1) \<Longrightarrow>
   action x (i + int (length pre)) w1 = (Inl e, w2) \<Longrightarrow>
   for_each2_loop (pre @ x # post) i action w = (Inl e, w2)"
proof (induction pre arbitrary: w i)
  case Nil
  then show ?case by simp
next
  case (Cons p pre)
  from Cons.prems obtain r w' where a: "action p i w = (Inr r, w')"
    and rest: "for_each2_loop pre (i + 1) action w' = (Inr (), w1)"
    by (auto split: prod.splits sum.splits)
  have "action x (i + 1 + int (length pre)) w1 = (Inl e, w2)"
    using Cons.prems(2) by (simp add: ac_simps)
  from Cons.IH[OF rest this] show ?case using a by simp
qed

subsection \<open>flatten2: work below a cursor\<close>

lemma flatten2_loop_None:
  "builtin_next it w = ((None, it'), w') \<Longrightarrow>
   flatten2_loop selector it stack w =
     (if stack \<noteq> [] then flatten2_loop selector (last stack) (butlast stack) w'
      else Some ((StopIteration, F2_Finished), w'))"
  by (subst flatten2_loop.simps) simp

lemma flatten2_loop_Some:
  "builtin_next it w = ((Some elem, it'), w') \<Longrightarrow>
   flatten2_loop selector it stack w =
     (case call selector elem w' of
        (Inl e, w'') \<Rightarrow> Some ((Raise (generator_exit e), F2_Finished), w'')
      | (Inr None, w'') \<Rightarrow> Some ((Yield elem, F2_Suspended it' stack), w'')
      | (Inr (Some nested), w'') \<Rightarrow>
          flatten2_loop selector (builtin_iter nested) (stack @ [it']) w'')"
  by (subst flatten2_loop.simps) simp

lemma flatten2_loop_Nil:
  "flatten2_loop selector (Position []) stack w =
     (if stack \<noteq> [] then flatten2_loop selector (last stack) (butlast stack) w
      else Some ((StopIteration, F2_Finished), w))"
  by (rule flatten2_loop_None) simp

lemma flatten2_loop_Cons:
  "flatten2_loop selector (Position (elem # it')) stack w =
     (case call selector elem w of
        (Inl e, w') \<Rightarrow> Some ((Raise (generator_exit e), F2_Finished), w')
      | (Inr None, w') \<Rightarrow> Some ((Yield elem, F2_Suspended (Position it') stack), w')
      | (Inr (Some nested), w') \<Rightarrow>
          flatten2_loop selector (builtin_iter nested) (stack @ [Position it']) w')"
  by (rule flatten2_loop_Some) simp

lemma flatten2_loop_frame:
  "flatten2_loop selector it st w = Some ((out, fr), w') \<Longrightarrow>
   (case out of Yield x \<Rightarrow> \<exists>it' st'. fr = F2_Suspended it' st' | _ \<Rightarrow> fr = F2_Finished)"
proof (induction selector it st w "((out, fr), w')" rule: flatten2_loop.raw_induct[rotated 1, consumes 1])
  case (1 loop' selector it st w)
  then show ?case
    by (auto split: if_splits prod.splits sum.splits option.splits)
qed

lemma below_pop:
  "st \<noteq> [] \<Longrightarrow>
   last (below_stack st rest stack) = below_it (last st) (butlast st) rest \<and>
   butlast (below_stack st rest stack) = below_stack (butlast st) rest stack"
proof (cases st)
  case Nil
  assume "st \<noteq> []"
  with Nil show ?thesis by simp
next
  case (Cons b st')
  show ?thesis
  proof (cases "st' = []")
    case True
    with Cons show ?thesis by (simp add: below_it_def below_stack_def)
  next
    case False
    with Cons show ?thesis
      by (simp add: below_it_def below_stack_def butlast_append)
  qed
qed

lemma below_push:
  "below_it nested (st @ [it']) rest = nested \<and>
   below_stack (st @ [it']) rest stack = below_stack st rest stack @ [below_it it' st rest]"
  by (cases st) (simp_all add: below_it_def below_stack_def)

lemma bottom_pop: "st \<noteq> [] \<Longrightarrow> bottom (last st) (butlast st) = bottom it st"
  by (cases st) (auto simp: bottom_def)

lemma bottom_push: "bottom nested (st @ [it']) = bottom it' st"
  by (cases st) (simp_all add: bottom_def)

lemma builtin_next_extend_None:
  "is_Position it \<Longrightarrow> builtin_next it w = ((None, it'), w1) \<Longrightarrow>
   extend it rest = Position rest \<and> w1 = w"
  by (cases it; cases "case it of Position xs \<Rightarrow> xs | _ \<Rightarrow> []") auto

lemma builtin_next_extend_Some:
  "is_Position it \<Longrightarrow> builtin_next it w = ((Some x, it'), w1) \<Longrightarrow>
   builtin_next (extend it rest) w = ((Some x, extend it' rest), w1) \<and> is_Position it'"
  by (cases it; cases "case it of Position xs \<Rightarrow> xs | _ \<Rightarrow> []") auto

lemma builtin_next_below:
  assumes "is_Position (bottom it st)" and "builtin_next it w = ((Some x, it'), w1)"
  shows "builtin_next (below_it it st rest) w = ((Some x, below_it it' st rest), w1)
    \<and> is_Position (bottom it' st)"
proof (cases "st = []")
  case True
  with assms builtin_next_extend_Some[of it w x it' w1 rest] show ?thesis
    by (simp add: below_it_def bottom_def)
next
  case False
  with assms show ?thesis by (simp add: below_it_def bottom_def)
qed

lemma flatten2_loop_below:
  "flatten2_loop selector it st w = Some ((out, fr), w') \<Longrightarrow>
   is_Position (bottom it st) \<longrightarrow>
     flatten2_loop selector (below_it it st rest) (below_stack st rest stack) w =
       (if out = StopIteration then flatten2_loop selector (Position rest) stack w'
        else Some ((out, below_frame rest stack fr), w'))
     \<and> (\<forall>it' st'. fr = F2_Suspended it' st' \<longrightarrow> is_Position (bottom it' st'))"
proof (induction selector it st w "((out, fr), w')" rule: flatten2_loop.raw_induct[rotated 1, consumes 1])
  case (1 loop' selector it st w)
  show ?case
  proof (intro impI)
    assume pos: "is_Position (bottom it st)"
    obtain opt it' w1 where nx: "builtin_next it w = ((opt, it'), w1)"
      by (metis surj_pair)
    show "flatten2_loop selector (below_it it st rest) (below_stack st rest stack) w =
       (if out = StopIteration then flatten2_loop selector (Position rest) stack w'
        else Some ((out, below_frame rest stack fr), w'))
     \<and> (\<forall>it' st'. fr = F2_Suspended it' st' \<longrightarrow> is_Position (bottom it' st'))"
    proof (cases opt)
      case None
      show ?thesis
      proof (cases "st = []")
        case True
        from 1(2) nx None True have res: "out = StopIteration" "fr = F2_Finished" "w' = w1"
          by simp_all
        from pos True have "is_Position it" by (simp add: bottom_def)
        from builtin_next_extend_None[OF this nx[unfolded None], of rest]
        have "extend it rest = Position rest" "w1 = w" by simp_all
        with True res show ?thesis by (simp add: below_it_def below_stack_def)
      next
        case False
        with None nx 1(2)
        have "loop' selector (last st) (butlast st) w1 = Some ((out, fr), w')" by simp
        from 1(1)[OF this] pos bottom_pop[OF False, of it] have IH:
          "flatten2_loop selector (below_it (last st) (butlast st) rest)
             (below_stack (butlast st) rest stack) w1 =
           (if out = StopIteration then flatten2_loop selector (Position rest) stack w'
            else Some ((out, below_frame rest stack fr), w'))
           \<and> (\<forall>it' st'. fr = F2_Suspended it' st' \<longrightarrow> is_Position (bottom it' st'))"
          by simp
        have ne: "below_stack st rest stack \<noteq> []" using False by (simp add: below_stack_def)
        have same: "below_it it st rest = it" using False by (simp add: below_it_def)
        have "flatten2_loop selector (below_it it st rest) (below_stack st rest stack) w
            = flatten2_loop selector (below_it (last st) (butlast st) rest)
                (below_stack (butlast st) rest stack) w1"
          unfolding same
          using ne below_pop[OF False, of rest stack]
          by (simp add: flatten2_loop_None[OF nx[unfolded None]])
        with IH show ?thesis by simp
      qed
    next
      case (Some x)
      note nx' = nx[unfolded Some]
      from builtin_next_below[OF pos nx', of rest]
      have nxb: "builtin_next (below_it it st rest) w = ((Some x, below_it it' st rest), w1)"
        and pos': "is_Position (bottom it' st)" by simp_all
      obtain r w2 where sel: "call selector x w1 = (r, w2)" by (cases "call selector x w1")
      have unfold: "flatten2_loop selector (below_it it st rest) (below_stack st rest stack) w =
          (case r of
             Inl e \<Rightarrow> Some ((Raise (generator_exit e), F2_Finished), w2)
           | Inr None \<Rightarrow>
               Some ((Yield x, F2_Suspended (below_it it' st rest) (below_stack st rest stack)), w2)
           | Inr (Some nested) \<Rightarrow>
               flatten2_loop selector (builtin_iter nested)
                 (below_stack st rest stack @ [below_it it' st rest]) w2)"
        by (simp add: flatten2_loop_Some[OF nxb] sel split: sum.splits option.splits)
      show ?thesis
      proof (cases r)
        case (Inl e)
        with nx' sel 1(2) unfold show ?thesis by auto
      next
        case (Inr res)
        show ?thesis
        proof (cases res)
          case None
          with Inr nx' sel 1(2) unfold pos' show ?thesis by auto
        next
          case (Some nested)
          with Inr nx' sel 1(2)
          have "loop' selector (builtin_iter nested) (st @ [it']) w2 = Some ((out, fr), w')"
            by simp
          from 1(1)[OF this] pos' show ?thesis
            using unfold Inr Some below_push[of "builtin_iter nested" st it' rest stack]
            by (simp add: bottom_push)
        qed
      qed
    qed
  qed
qed

lemma prepend_Nil [simp]: "prepend [] r = r"
  by (simp add: prepend_def split: prod.splits)

lemma map_option_prepend_Nil [simp]: "map_option (prepend []) z = z"
  by (cases z) simp_all

lemma flatten2_inner_Suspended:
  "flatten2_inner self selector (F2_Suspended it st) w = flatten2_loop selector it st w"
  by (simp add: flatten2_inner_def)

lemma drain_flatten2_below:
  assumes "drain (flatten2_inner self selector) (F2_Suspended it st) w = Some ((ys, r), w1)"
    and "is_Position (bottom it st)"
  shows "drain (flatten2_inner self selector)
           (F2_Suspended (below_it it st rest) (below_stack st rest stack)) w =
         (case r of
            None \<Rightarrow> map_option (prepend ys)
                      (drain (flatten2_inner self selector) (F2_Suspended (Position rest) stack) w1)
          | Some e \<Rightarrow> Some ((ys, Some e), w1))"
proof -
  let ?B = "flatten2_inner self selector"
  have "n = ?B \<longrightarrow> (\<forall>it st ys r w1. f = F2_Suspended it st \<longrightarrow> y = ((ys, r), w1) \<longrightarrow>
          is_Position (bottom it st) \<longrightarrow>
          drain ?B (F2_Suspended (below_it it st rest) (below_stack st rest stack)) w =
           (case r of
              None \<Rightarrow> map_option (prepend ys) (drain ?B (F2_Suspended (Position rest) stack) w1)
            | Some e \<Rightarrow> Some ((ys, Some e), w1)))"
    if "drain n f w = Some y" for n f w y
    using that
  proof (induction n f w y rule: drain.raw_induct[rotated 1, consumes 1])
    case (1 drain' n f w y)
    show ?case
    proof (intro impI allI)
      fix it st ys r w1
      assume n: "n = ?B" and f: "f = F2_Suspended it st" and y: "y = ((ys, r), w1)"
        and pos: "is_Position (bottom it st)"
      from 1(2) obtain out f' w' where step: "flatten2_loop selector it st w = Some ((out, f'), w')"
        unfolding n f by (cases "flatten2_loop selector it st w") (auto simp: flatten2_inner_def)
      from flatten2_loop_below[OF step, of rest stack] pos
      have below: "flatten2_loop selector (below_it it st rest) (below_stack st rest stack) w =
          (if out = StopIteration then flatten2_loop selector (Position rest) stack w'
           else Some ((out, below_frame rest stack f'), w'))"
        and pos': "\<And>it' st'. f' = F2_Suspended it' st' \<Longrightarrow> is_Position (bottom it' st')"
        by simp_all
      note frame = flatten2_loop_frame[OF step]
      let ?F = "F2_Suspended (below_it it st rest) (below_stack st rest stack)"
      show "drain ?B ?F w =
           (case r of
              None \<Rightarrow> map_option (prepend ys) (drain ?B (F2_Suspended (Position rest) stack) w1)
            | Some e \<Rightarrow> Some ((ys, Some e), w1))"
      proof (cases out)
        case StopIteration
        have y': "ys = [] \<and> r = None \<and> w1 = w'"
          using 1(2) step StopIteration unfolding n f y by (simp add: flatten2_inner_def)
        have "drain ?B ?F w = drain ?B (F2_Suspended (Position rest) stack) w'"
          by (rule drain_cong) (simp add: flatten2_inner_Suspended below StopIteration)
        then show ?thesis using y' by simp
      next
        case (Raise e)
        have y': "ys = [] \<and> r = Some e \<and> w1 = w'"
          using 1(2) step Raise unfolding n f y by (simp add: flatten2_inner_def)
        have "drain ?B ?F w = Some (([], Some e), w')"
          by (rule drain_Raise) (simp add: flatten2_inner_Suspended below Raise)
        then show ?thesis using y' by simp
      next
        case (Yield x)
        from frame Yield obtain it' st' where f': "f' = F2_Suspended it' st'" by auto
        from 1(2) step Yield obtain xs where
          rec: "drain' ?B f' w' = Some ((xs, r), w1)" and ys: "ys = x # xs"
          unfolding n f y
          by (auto simp: flatten2_inner_def bind_eq_Some_conv split: prod.splits)
        from 1(1)[OF rec] f' pos'[OF f'] have IH:
          "drain ?B (F2_Suspended (below_it it' st' rest) (below_stack st' rest stack)) w' =
             (case r of
                None \<Rightarrow> map_option (prepend xs) (drain ?B (F2_Suspended (Position rest) stack) w1)
              | Some e \<Rightarrow> Some ((xs, Some e), w1))"
          by simp
        have stepB: "?B ?F w = Some ((Yield x,
            F2_Suspended (below_it it' st' rest) (below_stack st' rest stack)), w')"
          by (simp add: flatten2_inner_Suspended below Yield f')
        show ?thesis
        proof (cases r)
          case None
          show ?thesis
          proof (cases "drain ?B (F2_Suspended (Position rest) stack) w1")
            case None': None
            have "drain ?B ?F w = None"
              using IH None None' by (simp add: drain.simps[of ?B ?F w] stepB)
            then show ?thesis using None None' by simp
          next
            case (Some z)
            obtain zs e w2 where z: "z = ((zs, e), w2)" by (metis surj_pair)
            have "drain ?B ?F w = Some ((x # xs @ zs, e), w2)"
              by (rule drain_Yield_Some, rule stepB) (simp add: IH None Some z prepend_def)
            then show ?thesis using None Some z ys by (simp add: prepend_def)
          qed
        next
          case (Some e)
          have "drain ?B ?F w = Some ((x # xs, Some e), w1)"
            by (rule drain_Yield_Some, rule stepB) (simp add: IH Some)
          then show ?thesis using Some ys by simp
        qed
      qed
    qed
  qed
  from this[OF assms(1)] assms(2) show ?thesis by simp
qed

lemma flatten2_loop_not_Created:
  "flatten2_loop selector it st w = Some ((out, fr), w') \<Longrightarrow> fr \<noteq> F2_Created"
  using flatten2_loop_frame[of selector it st w out fr w']
  by (cases out) auto

lemma drain_flatten2_self:
  "drain (flatten2_inner self selector) (F2_Suspended it st) w
     = drain (flatten2_inner self' selector) (F2_Suspended it st) w"
proof (rule drain_agree[where I = "\<lambda>f. f \<noteq> F2_Created"])
  show "F2_Suspended it st \<noteq> F2_Created" by simp
  show "flatten2_inner self selector f w = flatten2_inner self' selector f w"
    if "f \<noteq> F2_Created" for f w
    using that by (cases f) (simp_all add: flatten2_inner_def)
  show "f' \<noteq> F2_Created"
    if "f \<noteq> F2_Created" "flatten2_inner self' selector f w = Some ((out, f'), w')"
    for f w out f' w'
    using that flatten2_loop_not_Created[of selector _ _ w out f' w']
    by (cases f) (auto simp: flatten2_inner_def)
qed

lemma traverse_flatten2:
  "traverse (fst (flatten2 self selector w0)) w
     = drain (flatten2_inner (Sequence []) selector) (F2_Suspended (builtin_iter self) []) w"
proof -
  have "traverse (fst (flatten2 self selector w0)) w
      = drain (flatten2_inner self selector) F2_Created w"
    by (simp add: traverse_def flatten2_def iter_def)
  also have "\<dots> = drain (flatten2_inner self selector) (F2_Suspended (builtin_iter self) []) w"
    by (rule drain_cong) (simp add: flatten2_inner_def flatten2_while_stack_def)
  also have "\<dots> = drain (flatten2_inner (Sequence []) selector)
      (F2_Suspended (builtin_iter self) []) w"
    by (rule drain_flatten2_self)
  finally show ?thesis .
qed

lemma flatten2_fault:
  assumes "traverse (fst (flatten2 (Sequence pre) selector w0)) w = Some ((ys, None), w1)"
    and "call selector x w1 = (Inl e, w2)"
  shows "traverse (fst (flatten2 (Sequence (pre @ x # post)) selector w0')) w
    = Some ((ys, Some (generator_exit e)), w2)"
proof -
  let ?B = "flatten2_inner (Sequence []) selector"
  from assms(1) have pre: "drain ?B (F2_Suspended (Position pre) []) w = Some ((ys, None), w1)"
    by (simp add: traverse_flatten2)
  have "drain ?B (F2_Suspended (Position (x # post)) []) w1
      = Some (([], Some (generator_exit e)), w2)"
    by (rule drain_Raise)
      (simp add: flatten2_inner_def flatten2_loop_Some[of "Position (x # post)"] assms(2))
  with drain_flatten2_below[OF pre, of "x # post" "[]"]
  show ?thesis
    by (simp add: traverse_flatten2 below_it_def below_stack_def prepend_def bottom_def)
qed
subsection \<open>A callback that raises\<close>

text \<open>
  Claim C6, as amended. A caller-supplied function that raises ends the traversal at the
  element on which it raised, and what was done before stays done. From
  \<^verbatim>\<open>for_each\<close> and \<^verbatim>\<open>for_each2\<close> the exception leaves unmodified, whatever it is:
  if the action succeeds on all of \<open>pre\<close> and raises \<open>e\<close> on \<open>x\<close> (with index
  \<open>length pre\<close>), the call raises \<open>e\<close> in the world the actions have built, and \<open>post\<close> is
  not acted upon. From \<^verbatim>\<open>except_by\<close> and \<^verbatim>\<open>flatten2\<close>, which are generators, the
  exception leaves unmodified unless it is a \<^verbatim>\<open>StopIteration\<close>, which leaves as
  \<^verbatim>\<open>RuntimeError('generator raised StopIteration')\<close>: if the traversal of the source
  \<open>pre\<close> ends normally with the elements \<open>ys\<close> and the callback raises \<open>e\<close> on \<open>x\<close> in
  the world reached there, then the traversal of \<open>pre @ x # post\<close> produces \<open>ys\<close> and ends
  with \<open>generator_exit e\<close>, in the world the callback left; for \<^verbatim>\<open>flatten2\<close> the same
  holds from any suspended cursor, so also for an element of a nested iterable; a key
  selector that raises on an element of \<^verbatim>\<open>second\<close> ends the traversal in the same
  way before any element. \<open>generator_exit e\<close> is \<open>e\<close> for every \<open>e\<close> but
  \<^verbatim>\<open>StopIteration\<close>.
\<close>

theorem callback_fault_propagates:
  "(traverse (fst (except_by (Sequence pre) second key_selector w0)) w = Some ((ys, None), w1)
      \<and> call key_selector x w1 = (Inl e, w2)
    \<longrightarrow> traverse (fst (except_by (Sequence (pre @ x # post)) second key_selector w0)) w
          = Some ((ys, Some (generator_exit e)), w2))
   \<and> (except_by_keys key_selector (builtin_iter second) {} w = (Inl e, w2)
    \<longrightarrow> traverse (fst (except_by self second key_selector w0)) w
          = Some (([], Some (generator_exit e)), w2))
   \<and> (for_each pre action v = (Inr (), v1) \<and> action x v1 = (Inl e, v2)
    \<longrightarrow> for_each (pre @ x # post) action v = (Inl e, v2))
   \<and> (for_each2 pre action2 v = (Inr (), v1) \<and> action2 x (int (length pre)) v1 = (Inl e, v2)
    \<longrightarrow> for_each2 (pre @ x # post) action2 v = (Inl e, v2))
   \<and> (traverse (fst (flatten2 (Sequence pre) selector w0)) w = Some ((ys, None), w1)
      \<and> call selector x w1 = (Inl e, w2)
    \<longrightarrow> traverse (fst (flatten2 (Sequence (pre @ x # post)) selector w0)) w
          = Some ((ys, Some (generator_exit e)), w2))
   \<and> (drain (body (fst (flatten2 self selector w0))) (F2_Suspended (Position pre) []) w
        = Some ((ys, None), w1)
      \<and> call selector x w1 = (Inl e, w2)
    \<longrightarrow> drain (body (fst (flatten2 self selector w0)))
            (F2_Suspended (Position (pre @ x # post)) stack) w
          = Some ((ys, Some (generator_exit e)), w2))
   \<and> generator_exit e = (if e = Exn_StopIteration then Exn_RuntimeError else e)"
proof (intro conjI impI)
  assume a: "traverse (fst (except_by (Sequence pre) second key_selector w0)) w
        = Some ((ys, None), w1)
      \<and> call key_selector x w1 = (Inl e, w2)"
  obtain r w' where keys: "except_by_keys key_selector (builtin_iter second) {} w = (r, w')"
    by (cases "except_by_keys key_selector (builtin_iter second) {} w")
  from a keys obtain s where r: "r = Inr s"
    and run: "except_by_run key_selector s pre w' = ((ys, None), w1)"
    by (cases r) (auto simp: traverse_except_by_run)
  from except_by_run_fault[OF run, of x e w2 post] a keys r
  show "traverse (fst (except_by (Sequence (pre @ x # post)) second key_selector w0)) w
          = Some ((ys, Some (generator_exit e)), w2)"
    by (simp add: traverse_except_by_run)
next
  assume keys: "except_by_keys key_selector (builtin_iter second) {} w = (Inl e, w2)"
  have "drain (except_by_inner self second key_selector) EB_Created w
      = Some (([], Some (generator_exit e)), w2)"
    by (rule drain_Raise) (simp add: except_by_inner_def keys)
  then show "traverse (fst (except_by self second key_selector w0)) w
      = Some (([], Some (generator_exit e)), w2)"
    by (simp add: traverse_def except_by_def iter_def)
next
  assume "for_each pre action v = (Inr (), v1) \<and> action x v1 = (Inl e, v2)"
  then show "for_each (pre @ x # post) action v = (Inl e, v2)"
    using for_each_fault[of pre action v v1 x e v2 post] by simp
next
  assume "for_each2 pre action2 v = (Inr (), v1)
    \<and> action2 x (int (length pre)) v1 = (Inl e, v2)"
  then show "for_each2 (pre @ x # post) action2 v = (Inl e, v2)"
    using for_each2_loop_fault[of pre 0 action2 v v1 x e v2 post] by (simp add: for_each2_def)
next
  assume "traverse (fst (flatten2 (Sequence pre) selector w0)) w = Some ((ys, None), w1)
      \<and> call selector x w1 = (Inl e, w2)"
  then show "traverse (fst (flatten2 (Sequence (pre @ x # post)) selector w0)) w
      = Some ((ys, Some (generator_exit e)), w2)"
    using flatten2_fault[of pre selector w0 w ys w1 x e w2 post w0] by simp
next
  let ?B = "flatten2_inner self selector"
  assume a: "drain (body (fst (flatten2 self selector w0))) (F2_Suspended (Position pre) []) w
        = Some ((ys, None), w1) \<and> call selector x w1 = (Inl e, w2)"
  then have pre: "drain ?B (F2_Suspended (Position pre) []) w = Some ((ys, None), w1)"
    by (simp add: flatten2_def)
  have pos: "is_Position (bottom (Position pre) [])" by (simp add: bottom_def)
  have "drain ?B (F2_Suspended (Position (x # post)) stack) w1
      = Some (([], Some (generator_exit e)), w2)"
    by (rule drain_Raise)
      (use a in \<open>simp add: flatten2_inner_def flatten2_loop_Some[of "Position (x # post)"]\<close>)
  with drain_flatten2_below[OF pre pos, of "x # post" stack]
  show "drain (body (fst (flatten2 self selector w0)))
      (F2_Suspended (Position (pre @ x # post)) stack) w
          = Some ((ys, Some (generator_exit e)), w2)"
    by (simp add: flatten2_def below_it_def below_stack_def prepend_def)
next
  show "generator_exit e = (if e = Exn_StopIteration then Exn_RuntimeError else e)"
    by (cases e) simp_all
qed

theorem callback_fault_propagates_witness:
  "traverse (fst (except_by (Sequence ([1, 2, 1] @ 3 # [4])) (Sequence [])
        (example_key_selector Exn_StopIteration) (no_iterators 0))) (no_iterators 0)
     = Some (([1, 2], Some Exn_RuntimeError), no_iterators 4)
   \<and> traverse (fst (except_by (Sequence [1, 2]) (Iterator 0)
        (example_key_selector (Exn_Other ''boom'')) (one_iterator [2, 3, 4] 0)))
        (one_iterator [2, 3, 4] 0)
     = Some (([], Some (Exn_Other ''boom'')), one_iterator [4] 2)
   \<and> for_each ([1, 2] @ 3 # [4]) (example_action Exn_StopIteration) 0
     = (Inl Exn_StopIteration, 6)
   \<and> for_each2 ([5, 6] @ 7 # [8]) (example_action2 (Exn_Other ''boom'')) 0
     = (Inl (Exn_Other ''boom''), 18)
   \<and> traverse (fst (flatten2 (Sequence ([1, 0] @ 3 # [4]))
        (example_selector (Exn_Other ''boom'')) (no_iterators 0))) (no_iterators 0)
     = Some (([1, 7, 8], Some (Exn_Other ''boom'')), no_iterators 5)
   \<and> drain (body (fst (flatten2 (Sequence []) (example_selector Exn_StopIteration)
        (no_iterators 0))))
        (F2_Suspended (Position ([1, 0] @ 3 # [4])) [Position [9]]) (no_iterators 0)
     = Some (([1, 7, 8], Some Exn_RuntimeError), no_iterators 5)"
proof -
  let ?w = "no_iterators :: nat \<Rightarrow> (nat, nat) world"
  let ?v = "one_iterator :: nat list \<Rightarrow> nat \<Rightarrow> (nat, nat) world"
  have h1: "traverse (fst (except_by (Sequence [1, 2, 1]) (Sequence [])
        (example_key_selector Exn_StopIteration) (?w 0))) (?w 0)
      = Some (([1, 2], None), ?w 3)
    \<and> call (example_key_selector Exn_StopIteration) 3 (?w 3) = (Inl Exn_StopIteration, ?w 4)"
    by (simp add: traverse_except_by_run example_key_selector_def call_def)
  have h2: "except_by_keys (example_key_selector (Exn_Other ''boom''))
        (builtin_iter (Iterator 0)) {} (?v [2, 3, 4] 0)
      = (Inl (Exn_Other ''boom''), ?v [4] 2)"
    by (simp add: except_by_keys.simps[of _ "Object 0"] example_key_selector_def call_def)
  have h3: "for_each [1, 2] (example_action Exn_StopIteration) 0 = (Inr (), 3)
      \<and> example_action Exn_StopIteration 3 3 = (Inl Exn_StopIteration, 6)"
    by (simp add: example_action_def)
  have h4: "for_each2 [5, 6] (example_action2 (Exn_Other ''boom'')) 0 = (Inr (), 11)
      \<and> example_action2 (Exn_Other ''boom'') 7 (int (length [5, 6 :: nat])) 11
        = (Inl (Exn_Other ''boom''), 18)"
    by (simp add: for_each2_def example_action2_def)
  have h5: "traverse (fst (flatten2 (Sequence [1, 0]) (example_selector (Exn_Other ''boom''))
        (?w 0))) (?w 0) = Some (([1, 7, 8], None), ?w 4)
      \<and> call (example_selector (Exn_Other ''boom'')) 3 (?w 4)
        = (Inl (Exn_Other ''boom''), ?w 5)"
    by (simp add: traverse_def flatten2_def iter_def drain.simps flatten2_inner_def
        flatten2_while_stack_def flatten2_loop_Nil flatten2_loop_Cons example_selector_def
        call_def)
  have h6: "drain (body (fst (flatten2 (Sequence []) (example_selector Exn_StopIteration)
        (?w 0)))) (F2_Suspended (Position [1, 0]) []) (?w 0)
        = Some (([1, 7, 8], None), ?w 4)
      \<and> call (example_selector Exn_StopIteration) 3 (?w 4) = (Inl Exn_StopIteration, ?w 5)"
    by (simp add: traverse_def flatten2_def iter_def drain.simps flatten2_inner_def
        flatten2_while_stack_def flatten2_loop_Nil flatten2_loop_Cons example_selector_def
        call_def)
  note c1 = callback_fault_propagates[where pre = "[1, 2, 1]" and second = "Sequence []"
      and key_selector = "example_key_selector Exn_StopIteration" and ?w0.0 = "?w 0"
      and w = "?w 0" and ys = "[1, 2]" and ?w1.0 = "?w 3" and x = 3
      and e = Exn_StopIteration and ?w2.0 = "?w 4" and post = "[4]",
      THEN conjunct1, rule_format, OF h1]
  note c2 = callback_fault_propagates[where second = "Iterator 0"
      and key_selector = "example_key_selector (Exn_Other ''boom'')"
      and ?w0.0 = "?v [2, 3, 4] 0" and w = "?v [2, 3, 4] 0"
      and e = "Exn_Other ''boom''" and ?w2.0 = "?v [4] 2" and self = "Sequence [1, 2]",
      THEN conjunct2, THEN conjunct1, rule_format, OF h2]
  note c3 = callback_fault_propagates[where pre = "[1, 2]"
      and action = "example_action Exn_StopIteration"
      and v = 0 and ?v1.0 = 3 and x = 3 and e = Exn_StopIteration and ?v2.0 = 6
      and post = "[4]",
      THEN conjunct2, THEN conjunct2, THEN conjunct1, rule_format, OF h3]
  note c4 = callback_fault_propagates[where pre = "[5, 6]"
      and ?action2.0 = "example_action2 (Exn_Other ''boom'')"
      and v = 0 and ?v1.0 = 11 and x = 7 and e = "Exn_Other ''boom''" and ?v2.0 = 18
      and post = "[8]",
      THEN conjunct2, THEN conjunct2, THEN conjunct2, THEN conjunct1, rule_format, OF h4]
  note c5 = callback_fault_propagates[where pre = "[1, 0]"
      and selector = "example_selector (Exn_Other ''boom'')"
      and ?w0.0 = "?w 0" and w = "?w 0" and ys = "[1, 7, 8]" and ?w1.0 = "?w 4" and x = 3
      and e = "Exn_Other ''boom''" and ?w2.0 = "?w 5" and post = "[4]",
      THEN conjunct2, THEN conjunct2, THEN conjunct2, THEN conjunct2, THEN conjunct1,
      rule_format, OF h5]
  note c6 = callback_fault_propagates[where pre = "[1, 0]"
      and selector = "example_selector Exn_StopIteration"
      and ?w0.0 = "?w 0" and w = "?w 0" and ys = "[1, 7, 8]" and ?w1.0 = "?w 4" and x = 3
      and e = Exn_StopIteration and ?w2.0 = "?w 5" and post = "[4]" and self = "Sequence []"
      and stack = "[Position [9]]",
      THEN conjunct2, THEN conjunct2, THEN conjunct2, THEN conjunct2, THEN conjunct2,
      THEN conjunct1, rule_format, OF h6]
  from c1 c2 c3 c4 c5 c6 show ?thesis by simp
qed

text \<open>
  Claim C6 as stated does not hold of the generators: a key selector, or a selector,
  that raises \<^verbatim>\<open>StopIteration\<close> on the element 3 ends the traversal at that element,
  after the elements before it, but with the \<^verbatim>\<open>RuntimeError\<close> and not with the
  exception it raised.
\<close>

theorem callback_stop_iteration_is_replaced:
  "call (example_key_selector Exn_StopIteration) 3 (no_iterators 3 :: (nat, nat) world)
     = (Inl Exn_StopIteration, no_iterators 4)
   \<and> traverse (fst (except_by (Sequence [1, 2, 1, 3, 4]) (Sequence [])
        (example_key_selector Exn_StopIteration) (no_iterators 0))) (no_iterators 0)
     = Some (([1, 2], Some Exn_RuntimeError), no_iterators 4)
   \<and> traverse (fst (except_by (Sequence [1, 2, 1, 3, 4]) (Sequence [])
        (example_key_selector Exn_StopIteration) (no_iterators 0))) (no_iterators 0)
     \<noteq> Some (([1, 2], Some Exn_StopIteration), no_iterators 4)
   \<and> call (example_selector Exn_StopIteration) 3 (no_iterators 4 :: (nat, nat) world)
     = (Inl Exn_StopIteration, no_iterators 5)
   \<and> traverse (fst (flatten2 (Sequence [1, 0, 3, 4])
        (example_selector Exn_StopIteration) (no_iterators 0))) (no_iterators 0)
     = Some (([1, 7, 8], Some Exn_RuntimeError), no_iterators 5)
   \<and> traverse (fst (flatten2 (Sequence [1, 0, 3, 4])
        (example_selector Exn_StopIteration) (no_iterators 0))) (no_iterators 0)
     \<noteq> Some (([1, 7, 8], Some Exn_StopIteration), no_iterators 5)"
proof -
  have e: "traverse (fst (except_by (Sequence [1, 2, 1, 3, 4]) (Sequence [])
        (example_key_selector Exn_StopIteration) (no_iterators 0))) (no_iterators 0)
     = Some (([1, 2], Some Exn_RuntimeError), no_iterators 4)"
    by (simp add: traverse_except_by_run example_key_selector_def call_def)
  have f: "traverse (fst (flatten2 (Sequence [1, 0, 3, 4])
        (example_selector Exn_StopIteration) (no_iterators 0))) (no_iterators 0)
     = Some (([1, 7, 8], Some Exn_RuntimeError), no_iterators 5)"
    by (simp add: traverse_def flatten2_def iter_def drain.simps flatten2_inner_def
        flatten2_while_stack_def flatten2_loop_Nil flatten2_loop_Cons example_selector_def
        call_def)
  show ?thesis
    unfolding e f by (simp add: example_key_selector_def example_selector_def call_def)
qed

subsection \<open>flatten without arguments\<close>

lemma not_str_selector_simps:
  "call not_str_selector (Str s) w = (Inr None, w)"
  "call not_str_selector (Atom a) w = (Inr None, w)"
  "call not_str_selector (Coll xs) w = (Inr (Some (Sequence xs)), w)"
  by (simp_all add: call_def not_str_selector_def flatten_selector_def pure_callback_def)

lemma drain_flatten_frame:
  "drain (flatten2_inner self not_str_selector) (F2_Suspended (Position it) (map Position st)) w
     = Some ((concat (map leaves it) @ concat (map (\<lambda>i. concat (map leaves i)) (rev st)), None), w)"
  (is "drain ?B _ _ = _")
proof (induction "size_list size it + size_list (size_list size) st" arbitrary: it st
    rule: less_induct)
  case less
  show ?case
  proof (cases it)
    case Nil
    show ?thesis
    proof (cases "st = []")
      case True
      have "drain ?B (F2_Suspended (Position []) []) w = Some (([], None), w)"
        by (rule drain_Stop) (simp add: flatten2_inner_def flatten2_loop_Nil)
      with Nil True show ?thesis by simp
    next
      case False
      then obtain st' top where st: "st = st' @ [top]" by (metis rev_exhaust)
      have "drain ?B (F2_Suspended (Position []) (map Position st)) w
          = drain ?B (F2_Suspended (Position top) (map Position st')) w"
        by (rule drain_cong)
          (simp add: flatten2_inner_def flatten2_loop_Nil st)
      also have "\<dots> = Some ((concat (map leaves top)
          @ concat (map (\<lambda>i. concat (map leaves i)) (rev st')), None), w)"
        by (rule less) (simp add: Nil st)
      finally show ?thesis using Nil st by simp
    qed
  next
    case (Cons x it')
    show ?thesis
    proof (cases x)
      case (Coll xs)
      have "drain ?B (F2_Suspended (Position (x # it')) (map Position st)) w
          = drain ?B (F2_Suspended (Position xs) (map Position (st @ [it']))) w"
        by (rule drain_cong)
          (simp add: flatten2_inner_def flatten2_loop_Cons
            Coll not_str_selector_simps)
      also have "\<dots> = Some ((concat (map leaves xs)
          @ concat (map (\<lambda>i. concat (map leaves i)) (rev (st @ [it']))), None), w)"
        by (rule less) (simp add: Cons Coll)
      finally show ?thesis using Cons Coll by simp
    next
      case (Str s)
      have "drain ?B (F2_Suspended (Position (x # it')) (map Position st)) w
          = Some ((x # concat (map leaves it')
              @ concat (map (\<lambda>i. concat (map leaves i)) (rev st)), None), w)"
      proof (rule drain_Yield_Some)
        show "?B (F2_Suspended (Position (x # it')) (map Position st)) w
            = Some ((Yield x, F2_Suspended (Position it') (map Position st)), w)"
          by (simp add: flatten2_inner_def flatten2_loop_Cons
              Str not_str_selector_simps)
        show "drain ?B (F2_Suspended (Position it') (map Position st)) w
            = Some ((concat (map leaves it')
                @ concat (map (\<lambda>i. concat (map leaves i)) (rev st)), None), w)"
          by (rule less) (simp add: Cons)
      qed
      then show ?thesis using Cons Str by simp
    next
      case (Atom a)
      have "drain ?B (F2_Suspended (Position (x # it')) (map Position st)) w
          = Some ((x # concat (map leaves it')
              @ concat (map (\<lambda>i. concat (map leaves i)) (rev st)), None), w)"
      proof (rule drain_Yield_Some)
        show "?B (F2_Suspended (Position (x # it')) (map Position st)) w
            = Some ((Yield x, F2_Suspended (Position it') (map Position st)), w)"
          by (simp add: flatten2_inner_def flatten2_loop_Cons
              Atom not_str_selector_simps)
        show "drain ?B (F2_Suspended (Position it') (map Position st)) w
            = Some ((concat (map leaves it')
                @ concat (map (\<lambda>i. concat (map leaves i)) (rev st)), None), w)"
          by (rule less) (simp add: Cons)
      qed
      then show ?thesis using Cons Atom by simp
    qed
  qed
qed

lemma leaves_not_descended:
  "list_all (\<lambda>y. isinstance_str y \<or> \<not> isinstance_Iterable y) (leaves x)"
  by (induction x) (simp_all add: list_all_iff)

text \<open>
  Claim C10. A full traversal of \<^verbatim>\<open>flatten()\<close> over a collection with the
  elements \<open>self\<close> ends normally and has produced, in order, the leaves of the source:
  every \<^verbatim>\<open>str\<close> and every object that is not iterable,
  as it is, at whatever depth it stands, and no iterable that is not a \<^verbatim>\<open>str\<close>: those
  are descended into.
\<close>

theorem flatten_default_yields_leaves:
  "traverse (fst (flatten (Sequence self) [] w0)) w = Some ((concat (map leaves self), None), w)
   \<and> list_all (\<lambda>y. isinstance_str y \<or> \<not> isinstance_Iterable y) (concat (map leaves self))"
proof
  have "traverse (fst (flatten (Sequence self) [] w0)) w
      = drain (flatten2_inner (Sequence []) not_str_selector)
          (F2_Suspended (Position self) (map Position [])) w"
    by (simp add: traverse_flatten2 not_str_selector_def)
  also have "\<dots> = Some ((concat (map leaves self) 
      @ concat (map (\<lambda>i. concat (map leaves i)) (rev [])), None), w)"
    by (rule drain_flatten_frame)
  finally show "traverse (fst (flatten (Sequence self) [] w0)) w
      = Some ((concat (map leaves self), None), w)"
    by simp
  show "list_all (\<lambda>y. isinstance_str y \<or> \<not> isinstance_Iterable y) (concat (map leaves self))"
    using leaves_not_descended by (auto simp: list_all_iff)
qed

subsection \<open>interleave\<close>

declare round_robin.simps [simp del]
declare interleave_loop.simps [simp del]

lemma remaining_round_end:
  "length its \<le> i \<Longrightarrow> remaining_round its i = round_robin its"
  by (simp add: remaining_round_def)

lemma remaining_round_0: "remaining_round its 0 = round_robin its"
  by (simp add: remaining_round_def round_robin.simps[of its] round_robin.simps[of "[]"] Let_def)

lemma remaining_round_pop:
  assumes "i < length its" "its ! i = []"
  shows "remaining_round (take i its @ drop (Suc i) its) i = remaining_round its i"
proof -
  have len: "length (take i its) = i" using assms by simp
  have "drop i its = [] # drop (Suc i) its"
    using assms by (metis Cons_nth_drop_Suc)
  moreover have "drop i (take i its @ drop (Suc i) its) = drop (Suc i) its"
    using len by (metis append_eq_conv_conj)
  moreover have "take i (take i its @ drop (Suc i) its) = take i its"
    using len by (metis append_eq_conv_conj)
  ultimately show ?thesis
    unfolding remaining_round_def by (simp del: take_append drop_append)
qed

lemma remaining_round_yield:
  assumes "i < length its" "its ! i = x # it"
  shows "remaining_round its i = x # remaining_round (its[i := it]) (i + 1)"
proof -
  have "drop i its = (x # it) # drop (Suc i) its"
    using assms by (metis Cons_nth_drop_Suc)
  moreover have "take (Suc i) (its[i := it]) = take i its @ [it]"
    using assms by (simp add: take_Suc_conv_app_nth)
  ultimately show ?thesis by (simp add: remaining_round_def)
qed

lemma sum_list_length_update:
  assumes "i < length its" "its ! i = x # it"
  shows "sum_list (map length (its[i := it])) < sum_list (map length its)"
proof -
  have its: "its = take i its @ (x # it) # drop (Suc i) its"
    using assms by (metis id_take_nth_drop)
  have "its[i := it] = take i its @ it # drop (Suc i) its"
    using assms by (simp add: upd_conv_take_nth_drop)
  then have "sum_list (map length (its[i := it]))
      = sum_list (map length (take i its)) + length it + sum_list (map length (drop (Suc i) its))"
    by simp
  moreover have "sum_list (map length its)
      = sum_list (map length (take i its)) + Suc (length it) + sum_list (map length (drop (Suc i) its))"
    by (subst its) simp
  ultimately show ?thesis by simp
qed

lemma interleave_loop_step:
  "((interleave_loop (map Position its) i w
        :: (('a, 'e) outcome \<times> 'a interleave_frame) \<times> ('a, 'u) world)
        = ((StopIteration, IL_Finished), w) \<and> remaining_round its i = [])
   \<or> (\<exists>x its' i'. (interleave_loop (map Position its) i w
          :: (('a, 'e) outcome \<times> 'a interleave_frame) \<times> ('a, 'u) world)
          = ((Yield x, IL_Suspended (map Position its') i'), w)
        \<and> remaining_round its i = x # remaining_round its' (i' + 1)
        \<and> sum_list (map length its') < sum_list (map length its))"
  (is "?P its i")
proof (induction "2 * length its + (if i < length its then 0 else 1)" arbitrary: its i
    rule: less_induct)
  case less
  let ?loop = "\<lambda>its i. (interleave_loop (map Position its) i w
    :: (('a, 'e) outcome \<times> 'a interleave_frame) \<times> ('a, 'u) world)"
  show ?case
  proof (cases "i < length its")
    case True
    show ?thesis
    proof (cases "its ! i")
      case Nil
      have eq: "?loop its i = ?loop (take i its @ drop (Suc i) its) i"
        using True Nil
        by (subst interleave_loop.simps) (simp add: take_map drop_map)
      have "sum_list (map length its)
          = sum_list (map length (take i its @ its ! i # drop (Suc i) its))"
        using id_take_nth_drop[OF True] by simp
      then have le: "sum_list (map length (take i its @ drop (Suc i) its))
          \<le> sum_list (map length its)"
        by simp
      have "?P (take i its @ drop (Suc i) its) i"
        by (rule less) (use True in auto)
      then show ?thesis
      proof (elim disjE conjE exE)
        assume "?loop (take i its @ drop (Suc i) its) i = ((StopIteration, IL_Finished), w)"
          and "remaining_round (take i its @ drop (Suc i) its) i = []"
        then show ?thesis
          using eq remaining_round_pop[OF True Nil] by simp
      next
        fix x its' i'
        assume "?loop (take i its @ drop (Suc i) its) i
            = ((Yield x, IL_Suspended (map Position its') i'), w)"
          and "remaining_round (take i its @ drop (Suc i) its) i
            = x # remaining_round its' (i' + 1)"
          and "sum_list (map length its')
            < sum_list (map length (take i its @ drop (Suc i) its))"
        then have "?loop its i = ((Yield x, IL_Suspended (map Position its') i'), w)
            \<and> remaining_round its i = x # remaining_round its' (i' + 1)
            \<and> sum_list (map length its') < sum_list (map length its)"
          using eq remaining_round_pop[OF True Nil] le by simp
        then show ?thesis by blast
      qed
    next
      case (Cons x it)
      have "?loop its i = ((Yield x, IL_Suspended (map Position (its[i := it])) i), w)"
        using True Cons by (subst interleave_loop.simps) (simp add: map_update)
      then have "?loop its i = ((Yield x, IL_Suspended (map Position (its[i := it])) i), w)
          \<and> remaining_round its i = x # remaining_round (its[i := it]) (i + 1)
          \<and> sum_list (map length (its[i := it])) < sum_list (map length its)"
        using remaining_round_yield[OF True Cons] sum_list_length_update[OF True Cons]
        by simp
      then show ?thesis by blast
    qed
  next
    case False
    show ?thesis
    proof (cases "its = []")
      case True
      then show ?thesis
        by (simp add: interleave_loop.simps[of "[]"] remaining_round_def
            round_robin.simps[of "[]"])
    next
      case ne: False
      have eq: "?loop its i = ?loop its 0"
        using False ne by (subst interleave_loop.simps) simp
      have "?P its 0"
        by (rule less) (use False ne in auto)
      then show ?thesis
        unfolding eq using False by (simp add: remaining_round_end remaining_round_0)
    qed
  qed
qed

lemma drain_interleave:
  "drain (interleave_inner self iters) (IL_Suspended (map Position its) i) w
     = Some ((remaining_round its (i + 1), None :: 'e option), (w :: ('a, 'u) world))"
  (is "drain ?B _ _ = _")
proof (induction "sum_list (map length its)" arbitrary: its i rule: less_induct)
  case less
  let ?loop = "\<lambda>its i. (interleave_loop (map Position its) i w
    :: (('a, 'e) outcome \<times> 'a interleave_frame) \<times> ('a, 'u) world)"
  have B: "?B (IL_Suspended (map Position its) i) w = Some (?loop its (i + 1))"
    by (simp add: interleave_inner_def)
  from interleave_loop_step[of its "i + 1" w, where ?'e = 'e] show ?case
  proof (elim disjE conjE exE)
    assume "?loop its (i + 1) = ((StopIteration, IL_Finished), w)"
      and r: "remaining_round its (i + 1) = []"
    then have "drain ?B (IL_Suspended (map Position its) i) w = Some (([], None), w)"
      by (intro drain_Stop[where f' = IL_Finished]) (simp add: B)
    with r show ?thesis by simp
  next
    fix x its' i'
    assume step: "?loop its (i + 1) = ((Yield x, IL_Suspended (map Position its') i'), w)"
      and r: "remaining_round its (i + 1) = x # remaining_round its' (i' + 1)"
      and m: "sum_list (map length its') < sum_list (map length its)"
    have "drain ?B (IL_Suspended (map Position its) i) w
        = Some ((x # remaining_round its' (i' + 1), None), w)"
    proof (rule drain_Yield_Some)
      show "?B (IL_Suspended (map Position its) i) w
          = Some ((Yield x, IL_Suspended (map Position its') i'), w)"
        using step by (simp add: B)
      show "drain ?B (IL_Suspended (map Position its') i') w
          = Some ((remaining_round its' (i' + 1), None), w)"
        by (rule less) (rule m)
    qed
    with r show ?thesis by simp
  qed
qed

lemma traverse_interleave:
  "traverse (fst (interleave (Sequence self) (map Sequence iters) w0)) w
     = Some ((round_robin (self # iters), None :: 'e option), (w :: ('a, 'u) world))"
proof -
  let ?B = "interleave_inner (Sequence self) (map Sequence iters)
    :: ('a, 'e, ('a, 'u) world, 'a interleave_frame) generator_body"
  let ?loop = "\<lambda>its i. (interleave_loop (map Position its) i w
    :: (('a, 'e) outcome \<times> 'a interleave_frame) \<times> ('a, 'u) world)"
  have t: "traverse (fst (interleave (Sequence self) (map Sequence iters) w0)) w
      = drain ?B IL_Created w"
    by (simp add: traverse_def interleave_def iter_def)
  have its: "[builtin_iter (Sequence self)] @ map builtin_iter (map Sequence iters)
      = map Position (self # iters)"
    by simp
  have B: "?B IL_Created w = Some (?loop (self # iters) 0)"
    unfolding interleave_inner_def its by (simp add: interleave_while_its_def)
  from interleave_loop_step[of "self # iters" 0 w, where ?'e = 'e]
  have "drain ?B IL_Created w = Some ((round_robin (self # iters), None), w)"
  proof (elim disjE conjE exE)
    assume "?loop (self # iters) 0 = ((StopIteration, IL_Finished), w)"
      and r: "remaining_round (self # iters) 0 = []"
    then have "drain ?B IL_Created w = Some (([], None), w)"
      by (intro drain_Stop[where f' = IL_Finished]) (simp add: B)
    with r show ?thesis by (simp add: remaining_round_0)
  next
    fix x its' i'
    assume step: "?loop (self # iters) 0 = ((Yield x, IL_Suspended (map Position its') i'), w)"
      and r: "remaining_round (self # iters) 0 = x # remaining_round its' (i' + 1)"
    have "drain ?B IL_Created w = Some ((x # remaining_round its' (i' + 1), None), w)"
    proof (rule drain_Yield_Some)
      show "?B IL_Created w = Some ((Yield x, IL_Suspended (map Position its') i'), w)"
        using step by (simp add: B)
      show "drain ?B (IL_Suspended (map Position its') i') w
          = Some ((remaining_round its' (i' + 1), None), w)"
        by (rule drain_interleave)
    qed
    with r show ?thesis by (simp add: remaining_round_0)
  qed
  with t show ?thesis by simp
qed

lemma mset_heads_tails:
  "\<forall>input \<in> set live. input \<noteq> [] \<Longrightarrow>
   mset (map hd live) + mset (concat (map tl live)) = mset (concat live)"
proof (induction live)
  case Nil
  then show ?case by simp
next
  case (Cons a live)
  then obtain x xs where a: "a = x # xs" by (cases a) auto
  from Cons show ?case by (simp add: a)
qed

lemma concat_filter_nonempty: "concat (filter (\<lambda>input. input \<noteq> []) inputs) = concat inputs"
  by (induction inputs) auto

lemma mset_round_robin: "mset (round_robin inputs) = mset (concat inputs)"
proof (induction inputs rule: round_robin.induct)
  case (1 inputs)
  let ?live = "filter (\<lambda>input. input \<noteq> []) inputs"
  show ?case
  proof (cases "?live = []")
    case True
    then have "concat inputs = []" using concat_filter_nonempty[of inputs] by simp
    with True show ?thesis by (simp add: round_robin.simps[of inputs])
  next
    case False
    have "mset (round_robin inputs) = mset (map hd ?live) + mset (round_robin (map tl ?live))"
      using False by (simp add: round_robin.simps[of inputs] Let_def)
    also have "\<dots> = mset (map hd ?live) + mset (concat (map tl ?live))"
      using "1.IH"[OF refl False] by simp
    also have "\<dots> = mset (concat ?live)"
      by (rule mset_heads_tails) simp
    finally show ?thesis by (simp add: concat_filter_nonempty)
  qed
qed

text \<open>
  Claim C8. A full traversal of \<^verbatim>\<open>interleave(*iters)\<close> over collections (the
  receiver with the elements \<open>self\<close>, the arguments with the elements \<open>iters\<close>) ends
  normally and has produced the elements of the receiver and of the given iterables
  round-robin: in each round one
  element of every input that is not exhausted, in argument order, the receiver first.
  Every element of every input is produced exactly once.
\<close>

theorem interleave_round_robin:
  "traverse (fst (interleave (Sequence self) (map Sequence iters) w0)) w
     = Some ((round_robin (self # iters), None), w)
   \<and> mset (round_robin (self # iters)) = mset (concat (self # iters))"
  using traverse_interleave [of self iters w0 w] mset_round_robin [of "self # iters"]
  by simp

subsection \<open>traverse_depth_first\<close>

lemma foldl_append_each: "foldl (\<lambda>stack child. stack @ [child]) stack xs = stack @ xs"
  by (induction xs arbitrary: stack) simp_all

lemma drain_depth_first:
  assumes "children n = map root_of ts" "\<forall>t \<in> set ts. spans children t"
    "\<forall>p \<in> set pending. spans children p"
  shows "drain (traverse_depth_first_inner root (pure_callback (\<lambda>n. Inr (children n))))
           (TR_Suspended n (rev (map root_of pending))) w
     = Some ((concat (map preorder ts) @ concat (map preorder pending), None :: 'e exn option), (w :: 'w))"
  (is "drain ?B _ _ = _")
  using assms
proof (induction "size_list size ts + size_list size pending" arbitrary: n ts pending
    rule: less_induct)
  case less
  let ?out = "depth_first_while_stack (rev (map root_of (ts @ pending)))
      :: ('a, 'e exn) outcome \<times> 'a traverse_frame"
  have B: "?B (TR_Suspended n (rev (map root_of pending))) w = Some (?out, w)"
    using less.prems(1)
    by (simp add: traverse_depth_first_inner_def pure_callback_def foldl_append_each rev_map)
  show ?case
  proof (cases "ts @ pending")
    case Nil
    then have "?out = (StopIteration, TR_Finished)"
      by (simp add: depth_first_while_stack_def)
    then have "drain ?B (TR_Suspended n (rev (map root_of pending))) w = Some (([], None), w)"
      by (intro drain_Stop[where f' = TR_Finished]) (simp only: B)
    with Nil show ?thesis by simp
  next
    case (Cons t rest)
    obtain m us where t: "t = Rose m us" by (cases t)
    have out: "?out = (Yield m, TR_Suspended m (rev (map root_of rest)))"
      by (simp add: depth_first_while_stack_def Cons t)
    have sp: "spans children t" "\<forall>p \<in> set rest. spans children p"
      using less.prems(2,3) Cons
      by (metis Un_iff list.set_intros(1) set_append, metis Un_iff list.set_intros(2) set_append)
    have size: "size_list size us + size_list size rest < size_list size ts + size_list size pending"
    proof -
      have "size_list size (ts @ pending) = size_list size ts + size_list size pending"
        by (simp add: size_list_append)
      then show ?thesis unfolding Cons t by simp
    qed
    have "drain ?B (TR_Suspended m (rev (map root_of rest))) w
        = Some ((concat (map preorder us) @ concat (map preorder rest), None), w)"
      using less.hyps[OF size] sp t by simp
    then have "drain ?B (TR_Suspended n (rev (map root_of pending))) w
        = Some ((m # concat (map preorder us) @ concat (map preorder rest), None), w)"
      by (intro drain_Yield_Some[where f' = "TR_Suspended m (rev (map root_of rest))"])
        (simp_all only: B out)
    moreover have "concat (map preorder ts) @ concat (map preorder pending)
        = m # concat (map preorder us) @ concat (map preorder rest)"
    proof -
      have "concat (map preorder ts) @ concat (map preorder pending)
          = concat (map preorder (ts @ pending))" by simp
      then show ?thesis unfolding Cons t by simp
    qed
    ultimately show ?thesis by simp
  qed
qed

text \<open>
  Claim C9. When \<^verbatim>\<open>children_selector\<close> spans a finite tree from \<^verbatim>\<open>root\<close>, a full
  traversal of \<^verbatim>\<open>traverse_depth_first(root, children_selector)\<close> ends normally and has
  produced the pre-order of that tree: the root first, and for every node the whole
  subtree of its first child before the next sibling. (The generator pushes the
  children in reversed order onto a stack whose top is popped next.)
\<close>

theorem traverse_depth_first_preorder:
  assumes "spans children t"
  shows "traverse (fst (traverse_depth_first (root_of t)
             (pure_callback (\<lambda>n. Inr (children n))) w0)) w
     = Some ((preorder t, None), w)"
proof -
  obtain n ts where t: "t = Rose n ts" by (cases t)
  let ?B = "traverse_depth_first_inner n (pure_callback (\<lambda>n. Inr (children n)))
      :: ('a, 'b exn, 'c, 'a traverse_frame) generator_body"
  have "drain ?B (TR_Suspended n (rev (map root_of []))) w
      = Some ((concat (map preorder ts) @ concat (map preorder []), None), w)"
    using assms t by (intro drain_depth_first) simp_all
  then have "drain ?B TR_Created w = Some ((n # concat (map preorder ts), None), w)"
    by (intro drain_Yield_Some[where f' = "TR_Suspended n []"])
      (simp_all add: traverse_depth_first_inner_def depth_first_while_stack_def)
  then show ?thesis
    by (simp add: traverse_def traverse_depth_first_def iter_def t)
qed

theorem traverse_depth_first_preorder_witness:
  "spans example_children example_tree
   \<and> traverse (fst (traverse_depth_first (1 :: nat)
           (pure_callback (\<lambda>n. Inr (example_children n))) (0 :: nat))) (0 :: nat)
       = Some (([1, 2, 4, 3], None :: string exn option), 0)"
proof -
  have h: "spans example_children example_tree"
    by (simp add: example_children_def example_tree_def)
  from traverse_depth_first_preorder [OF h, of 0 0, where ?'b = string]
  show ?thesis using h by (simp add: example_tree_def)
qed

subsection \<open>Independent traversals\<close>

lemma at_world_simps [simp]:
  "at_world w None = None"
  "at_world w (Some (x, v)) = Some (x, w)"
  by (simp_all add: at_world_def)

lemma world_independentD:
  "world_independent I next_of \<Longrightarrow> I f \<Longrightarrow> next_of f w = Some (r, w') \<Longrightarrow>
   w' = w \<and> next_of f v = Some (r, v)"
  unfolding world_independent_def
  by (metis at_world_simps(2) option.inject prod.inject)

lemma world_independent_step:
  "world_independent I next_of \<Longrightarrow> I f \<Longrightarrow> next_of f w = Some ((out, f'), w') \<Longrightarrow> I f'"
  unfolding world_independent_def by blast

lemma world_independent_None:
  "world_independent I next_of \<Longrightarrow> I f \<Longrightarrow> next_of f w = None \<Longrightarrow> next_of f v = None"
  unfolding world_independent_def
  by (metis at_world_simps(1))

lemma advance_n_independent:
  assumes "world_independent I next_of" and "I f"
  shows "advance_n next_of n f w' = at_world w' (advance_n next_of n f w)"
  using assms(2)
proof (induction n arbitrary: f)
  case 0
  show ?case by simp
next
  case (Suc n)
  show ?case
  proof (cases "next_of f w")
    case None
    with world_independent_None[OF assms(1) Suc.prems None, of w'] show ?thesis by simp
  next
    case (Some a)
    obtain out f' v where a: "a = ((out, f'), v)" by (metis surj_pair)
    from world_independentD[OF assms(1) Suc.prems Some[unfolded a]]
    have v: "v = w" and step': "next_of f w' = Some ((out, f'), w')" by auto
    from world_independent_step[OF assms(1) Suc.prems Some[unfolded a]] have "I f'" .
    from Suc.IH[OF this] show ?thesis
      using Some a v step'
      by (cases "advance_n next_of n f' w") (auto split: option.splits)
  qed
qed











lemma call_nested_collections [simp]:
  "call (nested_collections sel) x w =
     (case sel x of
        Inl e \<Rightarrow> Inl e
      | Inr None \<Rightarrow> Inr None
      | Inr (Some xs) \<Rightarrow> Inr (Some (Sequence xs)), w)"
  by (simp add: nested_collections_def)








subsection \<open>Chaining is lazy\<close>

lemma holding_simps [simp]:
  "iterators (holding a xs w) a = xs"
  "(holding a xs w)\<lparr>iterators := (iterators (holding a xs w))(a := ys)\<rparr> = holding a ys w"
  by (simp_all add: holding_def)

text \<open>
  Claim C7. A source is any iterable, a re-iterable collection or a one-shot iterator
  object, whose every pull shows in the store of iterator objects. Calling
  \<^verbatim>\<open>except_by\<close>, \<^verbatim>\<open>distinct_by\<close>, \<^verbatim>\<open>flatten\<close>, \<^verbatim>\<open>flatten2\<close>, \<^verbatim>\<open>interleave\<close>,
  \<^verbatim>\<open>traverse_breath_first\<close> or \<^verbatim>\<open>traverse_depth_first\<close> leaves the world as it is,
  the store of iterator objects and the world of the callbacks, whatever the callbacks
  would do to it, and returns a sequence that does not depend on the world it was
  called in: no source is pulled or read and no callback is invoked. Asking the returned
  sequence for a cursor gives a generator that has not started (it holds no iterator
  over any source) and again leaves the world as it is. The sources are pulled and the
  callbacks run when the cursor is advanced. The first advance of \<^verbatim>\<open>except_by\<close> pulls
  the first element of \<^verbatim>\<open>second\<close>, or of the receiver when \<^verbatim>\<open>second\<close> is empty, and
  applies the key selector to it; the first advance of \<^verbatim>\<open>flatten2\<close> pulls the first
  element of the receiver and applies the selector to it; the first advance of
  \<^verbatim>\<open>interleave\<close> pulls the first element of the receiver; when the source is an
  iterator object, the object has lost that element afterwards. The first advance of a
  tree traversal yields the root, and the second one applies \<^verbatim>\<open>children_selector\<close> to
  it.
\<close>

theorem chaining_is_lazy:
  "except_by self second key_selector w = (fst (except_by self second key_selector w0), w)
   \<and> iter (fst (except_by self second key_selector w)) w' = (EB_Created, w')
   \<and> distinct_by self key_selector w = (fst (distinct_by self key_selector w0), w)
   \<and> iter (fst (distinct_by self key_selector w)) w' = (EB_Created, w')
   \<and> flatten pself args pw = (fst (flatten pself args pw0), pw)
   \<and> iter (fst (flatten pself args pw)) pw' = (F2_Created, pw')
   \<and> flatten2 self selector w = (fst (flatten2 self selector w0), w)
   \<and> iter (fst (flatten2 self selector w)) w' = (F2_Created, w')
   \<and> interleave self iters w = (fst (interleave self iters w0), w)
   \<and> iter (fst (interleave self iters w)) w' = (IL_Created, w')
   \<and> traverse_breath_first root children_selector tw
       = (fst (traverse_breath_first root children_selector tw0), tw)
   \<and> iter (fst (traverse_breath_first root children_selector tw)) tw' = (TR_Created, tw')
   \<and> traverse_depth_first root children_selector tw
       = (fst (traverse_depth_first root children_selector tw0), tw)
   \<and> iter (fst (traverse_depth_first root children_selector tw)) tw' = (TR_Created, tw')
   \<and> body (fst (except_by (Sequence (x # xs)) (Sequence []) key_selector w)) EB_Created w'
       = Some (case call key_selector x w' of
                 (Inl e, w1) \<Rightarrow> ((Raise (generator_exit e), EB_Finished), w1)
               | (Inr key, w1) \<Rightarrow> ((Yield x, EB_Suspended {key} (Position xs)), w1))
   \<and> body (fst (except_by (Iterator a) (Sequence []) key_selector w)) EB_Created
         (holding a (x # xs) w')
       = Some (case call key_selector x (holding a xs w') of
                 (Inl e, w1) \<Rightarrow> ((Raise (generator_exit e), EB_Finished), w1)
               | (Inr key, w1) \<Rightarrow> ((Yield x, EB_Suspended {key} (Object a)), w1))
   \<and> body (fst (except_by self (Sequence (x # xs)) key_selector w)) EB_Created w'
       = Some (case call key_selector x w' of
                 (Inl e, w1) \<Rightarrow> ((Raise (generator_exit e), EB_Finished), w1)
               | (Inr key, w1) \<Rightarrow>
                   (case except_by_keys key_selector (Position xs) {key} w1 of
                      (Inl e, w2) \<Rightarrow> ((Raise (generator_exit e), EB_Finished), w2)
                    | (Inr s, w2) \<Rightarrow> except_by_loop key_selector s (builtin_iter self) w2))
   \<and> body (fst (except_by self (Iterator a) key_selector w)) EB_Created
         (holding a (x # xs) w')
       = Some (case call key_selector x (holding a xs w') of
                 (Inl e, w1) \<Rightarrow> ((Raise (generator_exit e), EB_Finished), w1)
               | (Inr key, w1) \<Rightarrow>
                   (case except_by_keys key_selector (Object a) {key} w1 of
                      (Inl e, w2) \<Rightarrow> ((Raise (generator_exit e), EB_Finished), w2)
                    | (Inr s, w2) \<Rightarrow> except_by_loop key_selector s (builtin_iter self) w2))
   \<and> body (fst (flatten2 (Sequence (x # xs)) selector w)) F2_Created w'
       = (case call selector x w' of
            (Inl e, w1) \<Rightarrow> Some ((Raise (generator_exit e), F2_Finished), w1)
          | (Inr None, w1) \<Rightarrow> Some ((Yield x, F2_Suspended (Position xs) []), w1)
          | (Inr (Some nested), w1) \<Rightarrow>
              flatten2_loop selector (builtin_iter nested) [Position xs] w1)
   \<and> body (fst (flatten2 (Iterator a) selector w)) F2_Created (holding a (x # xs) w')
       = (case call selector x (holding a xs w') of
            (Inl e, w1) \<Rightarrow> Some ((Raise (generator_exit e), F2_Finished), w1)
          | (Inr None, w1) \<Rightarrow> Some ((Yield x, F2_Suspended (Object a) []), w1)
          | (Inr (Some nested), w1) \<Rightarrow>
              flatten2_loop selector (builtin_iter nested) [Object a] w1)
   \<and> body (fst (interleave (Sequence (x # xs)) iters w)) IL_Created w'
       = Some ((Yield x, IL_Suspended (Position xs # map builtin_iter iters) 0), w')
   \<and> body (fst (interleave (Iterator a) iters w)) IL_Created (holding a (x # xs) w')
       = Some ((Yield x, IL_Suspended (Object a # map builtin_iter iters) 0), holding a xs w')
   \<and> body (fst (traverse_breath_first root children_selector tw)) TR_Created tw'
       = Some ((Yield root, TR_Suspended root []), tw')
   \<and> body (fst (traverse_breath_first root children_selector tw)) (TR_Suspended root []) tw'
       = Some (case children_selector root tw' of
                 (Inl e, tw1) \<Rightarrow> ((Raise (generator_exit e), TR_Finished), tw1)
               | (Inr children, tw1) \<Rightarrow> (breath_first_while_queue children, tw1))
   \<and> body (fst (traverse_depth_first root children_selector tw)) TR_Created tw'
       = Some ((Yield root, TR_Suspended root []), tw')
   \<and> body (fst (traverse_depth_first root children_selector tw)) (TR_Suspended root []) tw'
       = Some (case children_selector root tw' of
                 (Inl e, tw1) \<Rightarrow> ((Raise (generator_exit e), TR_Finished), tw1)
               | (Inr children, tw1) \<Rightarrow> (depth_first_while_stack (rev children), tw1))"
proof (intro conjI)
  show "except_by self second key_selector w = (fst (except_by self second key_selector w0), w)"
    by (simp add: except_by_def)
  show "iter (fst (except_by self second key_selector w)) w' = (EB_Created, w')"
    by (simp add: except_by_def iter_def)
  show "distinct_by self key_selector w = (fst (distinct_by self key_selector w0), w)"
    by (simp add: distinct_by_def except_by_def)
  show "iter (fst (distinct_by self key_selector w)) w' = (EB_Created, w')"
    by (simp add: distinct_by_def except_by_def iter_def)
  show "flatten pself args pw = (fst (flatten pself args pw0), pw)"
    by (cases args) (simp_all add: flatten2_def)
  show "iter (fst (flatten pself args pw)) pw' = (F2_Created, pw')"
    by (cases args) (simp_all add: flatten2_def iter_def)
  show "flatten2 self selector w = (fst (flatten2 self selector w0), w)"
    by (simp add: flatten2_def)
  show "iter (fst (flatten2 self selector w)) w' = (F2_Created, w')"
    by (simp add: flatten2_def iter_def)
  show "interleave self iters w = (fst (interleave self iters w0), w)"
    by (simp add: interleave_def)
  show "iter (fst (interleave self iters w)) w' = (IL_Created, w')"
    by (simp add: interleave_def iter_def)
  show "traverse_breath_first root children_selector tw
       = (fst (traverse_breath_first root children_selector tw0), tw)"
    by (simp add: traverse_breath_first_def)
  show "iter (fst (traverse_breath_first root children_selector tw)) tw' = (TR_Created, tw')"
    by (simp add: traverse_breath_first_def iter_def)
  show "traverse_depth_first root children_selector tw
       = (fst (traverse_depth_first root children_selector tw0), tw)"
    by (simp add: traverse_depth_first_def)
  show "iter (fst (traverse_depth_first root children_selector tw)) tw' = (TR_Created, tw')"
    by (simp add: traverse_depth_first_def iter_def)
  show "body (fst (except_by (Sequence (x # xs)) (Sequence []) key_selector w)) EB_Created w'
       = Some (case call key_selector x w' of
                 (Inl e, w1) \<Rightarrow> ((Raise (generator_exit e), EB_Finished), w1)
               | (Inr key, w1) \<Rightarrow> ((Yield x, EB_Suspended {key} (Position xs)), w1))"
    by (simp add: except_by_def except_by_inner_def except_by_loop_Cons
        split: prod.splits sum.splits)
  show "body (fst (except_by (Iterator a) (Sequence []) key_selector w)) EB_Created
         (holding a (x # xs) w')
       = Some (case call key_selector x (holding a xs w') of
                 (Inl e, w1) \<Rightarrow> ((Raise (generator_exit e), EB_Finished), w1)
               | (Inr key, w1) \<Rightarrow> ((Yield x, EB_Suspended {key} (Object a)), w1))"
    by (simp add: except_by_def except_by_inner_def
        except_by_loop.simps[of _ _ "Object a" "holding a (x # xs) w'"]
        split: prod.splits sum.splits)
  show "body (fst (except_by self (Sequence (x # xs)) key_selector w)) EB_Created w'
       = Some (case call key_selector x w' of
                 (Inl e, w1) \<Rightarrow> ((Raise (generator_exit e), EB_Finished), w1)
               | (Inr key, w1) \<Rightarrow>
                   (case except_by_keys key_selector (Position xs) {key} w1 of
                      (Inl e, w2) \<Rightarrow> ((Raise (generator_exit e), EB_Finished), w2)
                    | (Inr s, w2) \<Rightarrow> except_by_loop key_selector s (builtin_iter self) w2))"
    by (simp add: except_by_def except_by_inner_def split: prod.splits sum.splits)
  show "body (fst (except_by self (Iterator a) key_selector w)) EB_Created
         (holding a (x # xs) w')
       = Some (case call key_selector x (holding a xs w') of
                 (Inl e, w1) \<Rightarrow> ((Raise (generator_exit e), EB_Finished), w1)
               | (Inr key, w1) \<Rightarrow>
                   (case except_by_keys key_selector (Object a) {key} w1 of
                      (Inl e, w2) \<Rightarrow> ((Raise (generator_exit e), EB_Finished), w2)
                    | (Inr s, w2) \<Rightarrow> except_by_loop key_selector s (builtin_iter self) w2))"
    by (simp add: except_by_def except_by_inner_def
        except_by_keys.simps[of _ "Object a" "{}" "holding a (x # xs) w'"]
        split: prod.splits sum.splits)
  show "body (fst (flatten2 (Sequence (x # xs)) selector w)) F2_Created w'
       = (case call selector x w' of
            (Inl e, w1) \<Rightarrow> Some ((Raise (generator_exit e), F2_Finished), w1)
          | (Inr None, w1) \<Rightarrow> Some ((Yield x, F2_Suspended (Position xs) []), w1)
          | (Inr (Some nested), w1) \<Rightarrow>
              flatten2_loop selector (builtin_iter nested) [Position xs] w1)"
    by (simp add: flatten2_def flatten2_inner_def flatten2_while_stack_def flatten2_loop_Cons
        split: prod.splits sum.splits option.splits)
  show "body (fst (flatten2 (Iterator a) selector w)) F2_Created (holding a (x # xs) w')
       = (case call selector x (holding a xs w') of
            (Inl e, w1) \<Rightarrow> Some ((Raise (generator_exit e), F2_Finished), w1)
          | (Inr None, w1) \<Rightarrow> Some ((Yield x, F2_Suspended (Object a) []), w1)
          | (Inr (Some nested), w1) \<Rightarrow>
              flatten2_loop selector (builtin_iter nested) [Object a] w1)"
    by (simp add: flatten2_def flatten2_inner_def flatten2_while_stack_def
        flatten2_loop_Some[of "Object a" "holding a (x # xs) w'" x "Object a" "holding a xs w'"]
        split: prod.splits sum.splits option.splits)
  show "body (fst (interleave (Sequence (x # xs)) iters w)) IL_Created w'
       = Some ((Yield x, IL_Suspended (Position xs # map builtin_iter iters) 0), w')"
    by (simp add: interleave_def interleave_inner_def interleave_while_its_def
        interleave_loop.simps[of "Position (x # xs) # map builtin_iter iters" 0])
  show "body (fst (interleave (Iterator a) iters w)) IL_Created (holding a (x # xs) w')
       = Some ((Yield x, IL_Suspended (Object a # map builtin_iter iters) 0), holding a xs w')"
    by (simp add: interleave_def interleave_inner_def interleave_while_its_def
        interleave_loop.simps[of "Object a # map builtin_iter iters" 0])
  show "body (fst (traverse_breath_first root children_selector tw)) TR_Created tw'
       = Some ((Yield root, TR_Suspended root []), tw')"
    by (simp add: traverse_breath_first_def traverse_breath_first_inner_def
        breath_first_while_queue_def)
  show "body (fst (traverse_breath_first root children_selector tw)) (TR_Suspended root []) tw'
       = Some (case children_selector root tw' of
                 (Inl e, tw1) \<Rightarrow> ((Raise (generator_exit e), TR_Finished), tw1)
               | (Inr children, tw1) \<Rightarrow> (breath_first_while_queue children, tw1))"
    by (simp add: traverse_breath_first_def traverse_breath_first_inner_def
        foldl_append_each split: prod.splits sum.splits)
  show "body (fst (traverse_depth_first root children_selector tw)) TR_Created tw'
       = Some ((Yield root, TR_Suspended root []), tw')"
    by (simp add: traverse_depth_first_def traverse_depth_first_inner_def
        depth_first_while_stack_def)
  show "body (fst (traverse_depth_first root children_selector tw)) (TR_Suspended root []) tw'
       = Some (case children_selector root tw' of
                 (Inl e, tw1) \<Rightarrow> ((Raise (generator_exit e), TR_Finished), tw1)
               | (Inr children, tw1) \<Rightarrow> (depth_first_while_stack (rev children), tw1))"
    by (simp add: traverse_depth_first_def traverse_depth_first_inner_def
        foldl_append_each split: prod.splits sum.splits)
qed

text \<open>
  An example: \<^verbatim>\<open>except_by\<close> over the iterator object at address 0, which holds 1 and
  2, with a key selector that counts its calls. The call and the request for a cursor
  leave the object and the count as they are; the first advance takes 1 out of the
  object and raises the count to 1. The first advance of \<^verbatim>\<open>interleave\<close> over the same
  object takes 1 out of it.
\<close>

theorem chaining_is_lazy_witness:
  "except_by (Iterator 0) (Sequence []) (example_key_selector (Exn_Other ''boom''))
       (one_iterator [1, 2] 0)
     = (fst (except_by (Iterator 0) (Sequence []) (example_key_selector (Exn_Other ''boom''))
              (no_iterators 7)),
        one_iterator [1, 2] 0)
   \<and> iter (fst (except_by (Iterator 0) (Sequence [])
         (example_key_selector (Exn_Other ''boom'')) (one_iterator [1, 2] 0)))
       (one_iterator [1, 2] 0)
     = (EB_Created, one_iterator [1, 2] 0)
   \<and> body (fst (except_by (Iterator 0) (Sequence [])
         (example_key_selector (Exn_Other ''boom'')) (one_iterator [1, 2] 0)))
       EB_Created (one_iterator [1, 2] 0)
     = Some ((Yield 1, EB_Suspended {1} (Object 0)), one_iterator [2] 1)
   \<and> body (fst (interleave (Iterator 0) [Sequence [5]] (one_iterator [1, 2] (0 :: nat))))
       IL_Created (one_iterator [1, 2] 0)
     = Some ((Yield 1 :: (nat, string exn) outcome,
              IL_Suspended [Object 0, Position [5]] 0), one_iterator [2] 0)"
proof -
  have h: "holding 0 xs (one_iterator [] u) = (one_iterator xs u :: (nat, nat) world)" for xs u
    by (simp add: holding_def one_iterator_def fun_eq_iff)
  note c = chaining_is_lazy[where self = "Iterator 0" and second = "Sequence []"
      and key_selector = "example_key_selector (Exn_Other ''boom'')"
      and w = "one_iterator [1, 2] 0" and ?w0.0 = "no_iterators 7"
      and w' = "one_iterator [1, 2] 0"]
  note d = chaining_is_lazy[where a = 0 and x = 1 and xs = "[2]"
      and key_selector = "example_key_selector (Exn_Other ''boom'')"
      and w = "one_iterator [1, 2] 0" and w' = "one_iterator [] 0"
      and iters = "[Sequence [5]]"]
  have 1: "except_by (Iterator 0) (Sequence []) (example_key_selector (Exn_Other ''boom''))
       (one_iterator [1, 2] 0)
     = (fst (except_by (Iterator 0) (Sequence []) (example_key_selector (Exn_Other ''boom''))
              (no_iterators 7)),
        one_iterator [1, 2] 0)"
    by (rule c[THEN conjunct1])
  have 2: "iter (fst (except_by (Iterator 0) (Sequence [])
         (example_key_selector (Exn_Other ''boom'')) (one_iterator [1, 2] 0)))
       (one_iterator [1, 2] 0)
     = (EB_Created, one_iterator [1, 2] 0)"
    by (rule c[THEN conjunct2, THEN conjunct1])
  have 3: "body (fst (except_by (Iterator 0) (Sequence [])
         (example_key_selector (Exn_Other ''boom'')) (one_iterator [1, 2] 0)))
       EB_Created (one_iterator [1, 2] 0)
     = Some ((Yield 1, EB_Suspended {1} (Object 0)), one_iterator [2] 1)"
    using d[THEN conjunct2, THEN conjunct2, THEN conjunct2, THEN conjunct2, THEN conjunct2,
        THEN conjunct2, THEN conjunct2, THEN conjunct2, THEN conjunct2, THEN conjunct2,
        THEN conjunct2, THEN conjunct2, THEN conjunct2, THEN conjunct2, THEN conjunct2,
        THEN conjunct1]
    by (simp add: h example_key_selector_def call_def)
  have 4: "body (fst (interleave (Iterator 0) [Sequence [5]] (one_iterator [1, 2] (0 :: nat))))
       IL_Created (one_iterator [1, 2] 0)
     = Some ((Yield 1 :: (nat, string exn) outcome,
              IL_Suspended [Object 0, Position [5]] 0), one_iterator [2] 0)"
    using d[THEN conjunct2, THEN conjunct2, THEN conjunct2, THEN conjunct2, THEN conjunct2,
        THEN conjunct2, THEN conjunct2, THEN conjunct2, THEN conjunct2, THEN conjunct2,
        THEN conjunct2, THEN conjunct2, THEN conjunct2, THEN conjunct2, THEN conjunct2,
        THEN conjunct2, THEN conjunct2, THEN conjunct2, THEN conjunct2, THEN conjunct2,
        THEN conjunct2, THEN conjunct1]
    by (simp add: h)
  from 1 2 3 4 show ?thesis by (intro conjI)
qed

subsection \<open>The cached sequence pulls its source once\<close>

lemma cache_inv_start: "cache_inv self (start_readers self)"
  by (simp add: cache_inv_def start_readers_def as_cached_def)

lemma reader_advance_step:
  assumes "cache_inv self r"
  shows "cache_inv self (reader_advance j r)
    \<and> position (reader_advance j r) j = min (position r j + 1) (length self)
    \<and> (exhausted (reader_advance j r) j \<longleftrightarrow> exhausted r j \<or> position r j = length self)
    \<and> (\<forall>k. k \<noteq> j \<longrightarrow> position (reader_advance j r) k = position r k
            \<and> exhausted (reader_advance j r) k = exhausted r k)"
proof -
  let ?c = "cache r" and ?i = "position r j"
  from assms have inv:
    "buffer ?c @ unpulled (underlying ?c) = self"
    "produced (underlying ?c) = length (buffer ?c)"
    "complete ?c \<longrightarrow> unpulled (underlying ?c) = []"
    "\<And>k. position r k \<le> length (buffer ?c)"
    "\<And>k. observed r k = take (position r k) self"
    "\<And>k. exhausted r k \<longrightarrow> position r k = length self \<and> complete ?c"
    by (auto simp: cache_inv_def)
  have len: "length self = length (buffer ?c) + length (unpulled (underlying ?c))"
    using inv(1) by (metis length_append)
  show ?thesis
  proof (cases "?i < length (buffer ?c)")
    case True
    have nth: "take ?i self @ [buffer ?c ! ?i] = take (Suc ?i) self"
      using True inv(1) by (metis length_append nth_append take_Suc_conv_app_nth trans_less_add1)
    have adv: "reader_advance j r = r\<lparr>position := (position r)(j := ?i + 1),
        observed := (observed r)(j := observed r j @ [buffer ?c ! ?i])\<rparr>"
      using True by (simp add: reader_advance_def cached_advance_def)
    show ?thesis
      unfolding adv using True inv nth len
      by (auto simp: cache_inv_def)
  next
    case False
    with inv(4)[of j] have i: "?i = length (buffer ?c)" by simp
    show ?thesis
    proof (cases "complete ?c")
      case True
      then have adv: "reader_advance j r = r\<lparr>cache := ?c, position := (position r)(j := ?i),
          exhausted := (exhausted r)(j := True)\<rparr>"
        using False by (simp add: reader_advance_def cached_advance_def)
      from True inv(3) len i have "?i = length self" by simp
      then show ?thesis
        unfolding adv using inv True by (auto simp: cache_inv_def)
    next
      case nc: False
      show ?thesis
      proof (cases "unpulled (underlying ?c)")
        case Nil
        then have adv: "reader_advance j r =
            r\<lparr>cache := ?c\<lparr>complete := True, underlying := underlying ?c\<rparr>,
              position := (position r)(j := ?i), exhausted := (exhausted r)(j := True)\<rparr>"
          using False nc by (simp add: reader_advance_def cached_advance_def pull_def)
        from Nil len i have "?i = length self" by simp
        then show ?thesis
          unfolding adv using inv Nil by (auto simp: cache_inv_def)
      next
        case (Cons x xs)
        then have adv: "reader_advance j r =
            r\<lparr>cache := ?c\<lparr>buffer := buffer ?c @ [x],
                underlying := \<lparr>unpulled = xs, produced = produced (underlying ?c) + 1\<rparr>\<rparr>,
              position := (position r)(j := ?i + 1),
              observed := (observed r)(j := observed r j @ [x])\<rparr>"
          using False nc by (simp add: reader_advance_def cached_advance_def pull_def)
        have self: "self = buffer ?c @ x # xs" using inv(1) Cons by simp
        have tk: "take ?i self @ [x] = take (Suc ?i) self"
          unfolding i by (subst (1 2) self) simp
        have lt: "?i < length self" using i self by (metis length_append less_add_same_cancel1 length_greater_0_conv list.distinct(1))
        have ne: "\<And>k. exhausted r k \<Longrightarrow> False"
          using inv(6) nc by blast
        show ?thesis
          unfolding adv using inv(4,5) inv(2) self tk lt ne nc i
          by (auto simp: cache_inv_def le_SucI)
      qed
    qed
  qed
qed

lemma run_readers_inv:
  assumes "cache_inv self r"
  shows "cache_inv self (run_readers schedule r)
    \<and> position (run_readers schedule r) j
        = min (position r j + count_list schedule j) (length self)
    \<and> (exhausted (run_readers schedule r) j
        \<longleftrightarrow> exhausted r j \<or> length self < position r j + count_list schedule j)"
  using assms
proof (induction schedule arbitrary: r)
  case Nil
  then have "position r j \<le> length self"
    by (auto simp: cache_inv_def) (metis le_add1 le_trans length_append)
  with Nil show ?case by simp
next
  case (Cons k schedule)
  note step = reader_advance_step[OF Cons.prems, of k]
  then have inv': "cache_inv self (reader_advance k r)" by simp
  note IH = Cons.IH[OF inv']
  have le: "position r j \<le> length self"
    using Cons.prems by (auto simp: cache_inv_def) (metis le_add1 le_trans length_append)
  show ?case
  proof (cases "k = j")
    case True
    from step True have p: "position (reader_advance k r) j = min (position r j + 1) (length self)"
      and e: "exhausted (reader_advance k r) j \<longleftrightarrow> exhausted r j \<or> position r j = length self"
      by simp_all
    show ?thesis
      using IH p e le True by (auto simp: min_def)
  next
    case False
    from step False have p: "position (reader_advance k r) j = position r j"
      and e: "exhausted (reader_advance k r) j = exhausted r j"
      by simp_all
    show ?thesis
      using IH p e False by simp
  qed
qed

text \<open>
  Claim C2. Over a cached sequence wrapping a source of \<open>M\<close> elements, let any number of
  cursors be advanced in any interleaving. The source never produces more than \<open>M\<close>
  elements; a cursor advanced \<open>n\<close> times has observed the first \<open>n\<close> source elements, in
  order; it is told of the exhaustion exactly when it is advanced more than \<open>M\<close> times;
  and as soon as one cursor has made a full traversal (\<open>M\<close> elements and the exhaustion),
  the source has produced exactly \<open>M\<close> elements, however many cursors make full
  traversals.
\<close>

theorem cached_traversals_pull_once:
  "produced (underlying (cache (run_readers schedule (start_readers self)))) \<le> length self
   \<and> observed (run_readers schedule (start_readers self)) j
       = take (count_list schedule j) self
   \<and> (exhausted (run_readers schedule (start_readers self)) j
       \<longleftrightarrow> length self < count_list schedule j)
   \<and> (length self < count_list schedule j
       \<longrightarrow> produced (underlying (cache (run_readers schedule (start_readers self))))
           = length self)"
proof -
  let ?r = "run_readers schedule (start_readers self)"
  note run = run_readers_inv[OF cache_inv_start, of self schedule j]
  then have inv: "cache_inv self ?r" by simp
  from run have pos: "position ?r j = min (count_list schedule j) (length self)"
    by (simp add: start_readers_def)
  from run have ex: "exhausted ?r j \<longleftrightarrow> length self < count_list schedule j"
    by (simp add: start_readers_def)
  from inv have buf: "buffer (cache ?r) @ unpulled (underlying (cache ?r)) = self"
    and prod: "produced (underlying (cache ?r)) = length (buffer (cache ?r))"
    and posle: "position ?r j \<le> length (buffer (cache ?r))"
    and obs: "observed ?r j = take (position ?r j) self"
    by (auto simp: cache_inv_def)
  have le: "length (buffer (cache ?r)) \<le> length self"
    using buf by (metis le_add1 length_append)
  show ?thesis
  proof (intro conjI impI)
    show "produced (underlying (cache ?r)) \<le> length self" using prod le by simp
    show "observed ?r j = take (count_list schedule j) self"
      using obs pos by (simp add: min_def)
    show "exhausted ?r j \<longleftrightarrow> length self < count_list schedule j" by (rule ex)
    assume "length self < count_list schedule j"
    with pos posle le prod show "produced (underlying (cache ?r)) = length self" by simp
  qed
qed

theorem cached_traversals_pull_once_witness:
  "length [10, 20, 30 :: nat] < count_list [0, 1, 2, 0, 1, 2, 2, 2, 1, 1, 0, 0 :: nat] 1
   \<and> produced (underlying (cache (run_readers [0, 1, 2, 0, 1, 2, 2, 2, 1, 1, 0, 0]
         (start_readers [10, 20, 30 :: nat])))) = 3
   \<and> observed (run_readers [0, 1, 2, 0, 1, 2, 2, 2, 1, 1, 0, 0]
         (start_readers [10, 20, 30 :: nat])) 1 = [10, 20, 30]"
proof -
  have h: "length [10, 20, 30 :: nat] < count_list [0, 1, 2, 0, 1, 2, 2, 2, 1, 1, 0, 0 :: nat] 1"
    by simp
  from cached_traversals_pull_once [of "[0, 1, 2, 0, 1, 2, 2, 2, 1, 1, 0, 0]" "[10, 20, 30 :: nat]" 1]
  show ?thesis using h by simp
qed

subsection \<open>The ordered sequence is a stable multi-key sort\<close>

lemma valid_comparerD:
  assumes "valid_comparer f"
  shows "(f a b < 0) = (0 < f b a)"
    and "f a b \<le> 0 \<Longrightarrow> f b c \<le> 0 \<Longrightarrow> f a c \<le> 0"
    and "(f a b = 0) = (f b a = 0)"
  using assms unfolding valid_comparer_def
  by (blast, blast, metis less_le not_less)

lemma valid_comparer_strict:
  assumes v: "valid_comparer f"
  shows "f a b < 0 \<Longrightarrow> f b c \<le> 0 \<Longrightarrow> f a c < 0"
    and "f a b \<le> 0 \<Longrightarrow> f b c < 0 \<Longrightarrow> f a c < 0"
    and "f a b = 0 \<Longrightarrow> f b c = 0 \<Longrightarrow> f a c = 0"
proof -
  note d = valid_comparerD[OF v]
  show 1: "f a c < 0" if ab: "f a b < 0" and bc: "f b c \<le> 0"
  proof (rule ccontr)
    assume "\<not> f a c < 0"
    moreover have "f a c \<le> 0" using d(2)[of a b c] ab bc by simp
    ultimately have "f a c = 0" by simp
    then have "f c a \<le> 0" using d(3)[of a c] by simp
    with bc have "f b a \<le> 0" by (rule d(2)[rotated, rotated]) 
    with ab d(1)[of a b] show False by simp
  qed
  show 2: "f a c < 0" if ab: "f a b \<le> 0" and bc: "f b c < 0"
  proof (rule ccontr)
    assume "\<not> f a c < 0"
    moreover have "f a c \<le> 0" using d(2)[of a b c] ab bc by simp
    ultimately have "f a c = 0" by simp
    then have "f c a \<le> 0" using d(3)[of a c] by simp
    from d(2)[OF this ab] have "f c b \<le> 0" .
    with bc d(1)[of b c] show False by simp
  qed
  show "f a c = 0" if ab: "f a b = 0" and bc: "f b c = 0"
  proof -
    have "f a c \<le> 0" using d(2)[of a b c] ab bc by simp
    moreover have "f c a \<le> 0" using d(2)[of c b a] d(3)[of a b] d(3)[of b c] ab bc by simp
    ultimately show ?thesis using d(1)[of a c] by (cases "f a c = 0") auto
  qed
qed

lemma valid_natural_compare: "valid_comparer (natural_compare :: 'k :: linorder \<Rightarrow> 'k \<Rightarrow> int)"
  unfolding valid_comparer_def natural_compare_def by auto

lemma valid_compare_spec:
  assumes "valid_spec spec"
  shows "valid_comparer (compare_spec spec)"
proof -
  define f where "f = (case comparator spec of None \<Rightarrow> natural_compare | Some g \<Rightarrow> g)"
  have vf: "valid_comparer f"
    using assms valid_natural_compare
    by (auto simp: f_def valid_spec_def split: option.splits)
  have cs: "compare_spec spec a b
      = (if is_descending spec then - f (key_of spec a) (key_of spec b)
         else f (key_of spec a) (key_of spec b))" for a b
    by (simp add: compare_spec_def f_def split: option.splits)
  note d = valid_comparerD[OF vf]
  show ?thesis
    unfolding valid_comparer_def
  proof (intro conjI allI impI)
    fix a b
    show "(compare_spec spec a b < 0) = (0 < compare_spec spec b a)"
      using d(1)[of "key_of spec a" "key_of spec b"] d(1)[of "key_of spec b" "key_of spec a"]
      by (simp add: cs)
  next
    fix a b c
    assume ab: "compare_spec spec a b \<le> 0" and bc: "compare_spec spec b c \<le> 0"
    show "compare_spec spec a c \<le> 0"
    proof (cases "is_descending spec")
      case False
      with ab bc d(2)[of "key_of spec a" "key_of spec b" "key_of spec c"] show ?thesis
        by (simp add: cs)
    next
      case True
      let ?a = "key_of spec a" and ?b = "key_of spec b" and ?c = "key_of spec c"
      from True ab bc have "0 \<le> f ?a ?b" "0 \<le> f ?b ?c" by (simp_all add: cs)
      then have "f ?b ?a \<le> 0" "f ?c ?b \<le> 0"
        using d(1)[of ?a ?b] d(1)[of ?b ?c] by (simp_all add: not_less[symmetric])
      then have "f ?c ?a \<le> 0" using d(2)[of ?c ?b ?a] by simp
      then have "0 \<le> f ?a ?c" using d(1)[of ?a ?c] by (simp add: not_less[symmetric])
      with True show ?thesis by (simp add: cs)
    qed
  qed
qed

lemma valid_comparer_lex:
  assumes vf: "valid_comparer f" and vg: "valid_comparer g"
  shows "valid_comparer (\<lambda>a b. if f a b \<noteq> 0 then f a b else g a b)"
  unfolding valid_comparer_def
proof (intro conjI allI impI)
  note df = valid_comparerD[OF vf] and dg = valid_comparerD[OF vg]
  fix a b
  show "((if f a b \<noteq> 0 then f a b else g a b) < 0)
      = (0 < (if f b a \<noteq> 0 then f b a else g b a))"
    using df(1)[of a b] df(3)[of a b] dg(1)[of a b] by auto
next
  note df = valid_comparerD[OF vf] and dg = valid_comparerD[OF vg]
  note sf = valid_comparer_strict[OF vf]
  fix a b c
  assume ab: "(if f a b \<noteq> 0 then f a b else g a b) \<le> 0"
    and bc: "(if f b c \<noteq> 0 then f b c else g b c) \<le> 0"
  from ab have fab: "f a b \<le> 0" by (auto split: if_splits)
  from bc have fbc: "f b c \<le> 0" by (auto split: if_splits)
  show "(if f a c \<noteq> 0 then f a c else g a c) \<le> 0"
  proof (cases "f a b < 0 \<or> f b c < 0")
    case True
    then have "f a c < 0" using sf(1)[of a b c] sf(2)[of a b c] fab fbc by blast
    then show ?thesis by simp
  next
    case False
    with fab fbc have z: "f a b = 0" "f b c = 0" by auto
    with ab bc have "g a b \<le> 0" "g b c \<le> 0" by auto
    then have "g a c \<le> 0" by (rule dg(2))
    moreover have "f a c = 0" using sf(3)[OF z] .
    ultimately show ?thesis by simp
  qed
qed

lemma valid_comparer_on:
  assumes "valid_comparer f"
  shows "valid_comparer (\<lambda>a b. f (k a) (k b))"
  using assms unfolding valid_comparer_def by blast

lemma valid_comparer_zero: "valid_comparer (\<lambda>a b. 0)"
  by (simp add: valid_comparer_def)

lemma valid_compare_specs:
  "list_all valid_spec specs \<Longrightarrow> valid_comparer (compare_specs specs)"
proof (induction specs)
  case Nil
  have "compare_specs ([] :: ('a, 'b) sort_key_spec list) = (\<lambda>a b. 0)" by (intro ext) simp
  then show ?case by (simp add: valid_comparer_zero)
next
  case (Cons spec specs)
  then have v: "valid_comparer (compare_spec spec)" "valid_comparer (compare_specs specs)"
    by (simp_all add: valid_compare_spec)
  have "compare_specs (spec # specs)
      = (\<lambda>a b. if compare_spec spec a b \<noteq> 0 then compare_spec spec a b
               else compare_specs specs a b)"
    by (intro ext) (simp add: Let_def)
  then show ?case using valid_comparer_lex[OF v] by simp
qed

lemma valid_compare_indexed:
  assumes "list_all valid_spec specs"
  shows "valid_comparer (compare_indexed specs)"
proof -
  have 1: "valid_comparer (\<lambda>p q :: nat \<times> 'a. compare_specs specs (snd p) (snd q))"
    by (rule valid_comparer_on) (rule valid_compare_specs[OF assms])
  have 2: "valid_comparer (\<lambda>p q :: nat \<times> 'a. natural_compare (fst p) (fst q))"
    by (rule valid_comparer_on) (rule valid_natural_compare)
  have "compare_indexed specs
      = (\<lambda>p q. if compare_specs specs (snd p) (snd q) \<noteq> 0
               then compare_specs specs (snd p) (snd q)
               else natural_compare (fst p) (fst q))"
    by (intro ext) (simp add: compare_indexed_def Let_def)
  then show ?thesis using valid_comparer_lex[OF 1 2] by simp
qed

lemma mset_insert_by: "mset (insert_by cmp x ys) = add_mset x (mset ys)"
  by (induction ys) simp_all

lemma mset_sort_by: "mset (sort_by cmp xs) = mset xs"
  by (induction xs) (simp_all add: sort_by_def mset_insert_by)

lemma set_insert_by: "set (insert_by cmp x ys) = insert x (set ys)"
  by (induction ys) auto

lemma sorted_insert_by:
  assumes v: "valid_comparer cmp"
  shows "sorted_wrt (\<lambda>a b. cmp a b \<le> 0) ys \<Longrightarrow> sorted_wrt (\<lambda>a b. cmp a b \<le> 0) (insert_by cmp x ys)"
proof (induction ys)
  case Nil
  show ?case by simp
next
  case (Cons y ys)
  note d = valid_comparerD[OF v]
  show ?case
  proof (cases "cmp x y \<le> 0")
    case True
    then have "\<forall>z \<in> set ys. cmp x z \<le> 0"
      using Cons.prems d(2)[of x y] by auto
    with True Cons.prems show ?thesis by simp
  next
    case False
    then have yx: "cmp y x \<le> 0" using d(1)[of y x] by simp
    from Cons have "sorted_wrt (\<lambda>a b. cmp a b \<le> 0) (insert_by cmp x ys)" by simp
    with False yx Cons.prems show ?thesis by (auto simp: set_insert_by)
  qed
qed

lemma sorted_sort_by:
  assumes "valid_comparer cmp"
  shows "sorted_wrt (\<lambda>a b. cmp a b \<le> 0) (sort_by cmp xs)"
  by (induction xs) (simp_all add: sort_by_def sorted_insert_by[OF assms])

lemma compare_specs_eq_0:
  "(compare_specs specs a b = 0) = list_all (\<lambda>spec. compare_spec spec a b = 0) specs"
  by (induction specs) (auto simp: Let_def)

lemma compare_specs_append:
  "compare_specs (specs @ [spec]) a b =
     (if compare_specs specs a b \<noteq> 0 then compare_specs specs a b else compare_spec spec a b)"
  by (induction specs) (auto simp: Let_def)

lemma mset_ordered_iterate: "mset (ordered_iterate ordered) = mset (ordered_source ordered)"
proof -
  let ?src = "ordered_source ordered"
  let ?idx = "zip [0..<length ?src] ?src"
  have "mset (ordered_iterate ordered)
      = image_mset snd (mset (sort_by (compare_indexed (sort_specs ordered)) ?idx))"
    by (simp add: ordered_iterate_def Let_def)
  also have "\<dots> = image_mset snd (mset ?idx)" by (simp only: mset_sort_by)
  also have "\<dots> = mset (map snd ?idx)" by (simp only: mset_map)
  also have "\<dots> = mset ?src" by simp
  finally show ?thesis .
qed

lemma sorted_ordered_iterate:
  assumes "list_all valid_spec (sort_specs ordered)"
  shows "sorted_wrt (\<lambda>a b. compare_specs (sort_specs ordered) a b \<le> 0) (ordered_iterate ordered)"
proof -
  let ?specs = "sort_specs ordered"
  let ?src = "ordered_source ordered"
  let ?L = "sort_by (compare_indexed ?specs) (zip [0..<length ?src] ?src)"
  have "sorted_wrt (\<lambda>p q. compare_indexed ?specs p q \<le> 0) ?L"
    by (rule sorted_sort_by) (rule valid_compare_indexed[OF assms])
  then have "sorted_wrt (\<lambda>p q. compare_specs ?specs (snd p) (snd q) \<le> 0) ?L"
    by (rule sorted_wrt_mono_rel[rotated])
      (auto simp: compare_indexed_def Let_def split: if_splits)
  then show ?thesis
    by (simp add: ordered_iterate_def Let_def sorted_wrt_map)
qed

lemma stable_ordered_iterate:
  assumes valid: "list_all valid_spec (sort_specs ordered)"
  shows "filter (\<lambda>y. compare_specs (sort_specs ordered) x y = 0) (ordered_iterate ordered)
       = filter (\<lambda>y. compare_specs (sort_specs ordered) x y = 0) (ordered_source ordered)"
proof -
  let ?specs = "sort_specs ordered"
  let ?src = "ordered_source ordered"
  let ?idx = "zip [0..<length ?src] ?src"
  let ?L = "sort_by (compare_indexed ?specs) ?idx"
  let ?P = "\<lambda>p :: nat \<times> 'a. compare_specs ?specs x (snd p) = 0"
  note vc = valid_compare_specs[OF valid]
  have fst_idx: "map fst ?idx = [0..<length ?src]" by simp
  have msetL: "mset ?L = mset ?idx" by (rule mset_sort_by)
  then have setL: "set ?L = set ?idx" by (rule mset_eq_setD)
  have inj: "inj_on fst (set ?idx)"
    using fst_idx by (metis distinct_map distinct_upt)
  \<comment> \<open>both filtered lists have the same indices, as multisets\<close>
  have mset_fst: "mset (map fst (filter ?P ?L)) = mset (map fst (filter ?P ?idx))"
    by (simp only: mset_map mset_filter msetL)
  \<comment> \<open>the source's is sorted by index\<close>
  have "sorted_wrt (<) (map fst ?idx)" using fst_idx by (simp add: sorted_wrt_upt del: map_fst_zip)
  then have "sorted_wrt (\<lambda>p q. fst p < fst q) ?idx" by (simp add: sorted_wrt_map del: map_fst_zip)
  then have "sorted_wrt (\<lambda>p q. fst p < fst q) (filter ?P ?idx)" by (rule sorted_wrt_filter)
  then have src_sorted: "sorted_wrt (<) (map fst (filter ?P ?idx))"
    by (simp add: sorted_wrt_map)
  then have src_sd: "sorted (map fst (filter ?P ?idx))" "distinct (map fst (filter ?P ?idx))"
    by (simp_all add: strict_sorted_iff)
  \<comment> \<open>the sorted buffer's is sorted by index within the class of \<open>x\<close>\<close>
  have "sorted_wrt (\<lambda>p q. compare_indexed ?specs p q \<le> 0) ?L"
    by (rule sorted_sort_by) (rule valid_compare_indexed[OF valid])
  then have "sorted_wrt (\<lambda>p q. compare_indexed ?specs p q \<le> 0) (filter ?P ?L)"
    by (rule sorted_wrt_filter)
  then have "sorted_wrt (\<lambda>p q. fst p \<le> fst q) (filter ?P ?L)"
  proof (rule sorted_wrt_mono_rel[rotated])
    fix p q
    assume p: "p \<in> set (filter ?P ?L)" and q: "q \<in> set (filter ?P ?L)"
      and le: "compare_indexed ?specs p q \<le> 0"
    from p q have "compare_specs ?specs x (snd p) = 0" "compare_specs ?specs x (snd q) = 0"
      by simp_all
    then have "compare_specs ?specs (snd p) (snd q) = 0"
      using valid_comparerD(3)[OF vc, of x "snd p"] valid_comparer_strict(3)[OF vc, of "snd p" x "snd q"]
      by simp
    with le have "natural_compare (fst p) (fst q) \<le> 0"
      by (simp add: compare_indexed_def)
    then show "fst p \<le> fst q"
      by (auto simp: natural_compare_def split: if_splits)
  qed
  then have L_sorted: "sorted (map fst (filter ?P ?L))"
    by (simp add: sorted_wrt_map)
  have L_distinct: "distinct (map fst (filter ?P ?L))"
    using src_sd(2) mset_fst by (metis mset_eq_imp_distinct_iff)
  have "set (map fst (filter ?P ?L)) = set (map fst (filter ?P ?idx))"
    using mset_fst by (rule mset_eq_setD)
  with L_sorted L_distinct src_sd
  have eq_fst: "map fst (filter ?P ?L) = map fst (filter ?P ?idx)"
    by (intro sorted_distinct_set_unique)
  have "inj_on fst (set (filter ?P ?L) \<union> set (filter ?P ?idx))"
    using inj setL by (auto intro: inj_on_subset)
  with eq_fst have eq: "filter ?P ?L = filter ?P ?idx"
    by (simp add: inj_on_map_eq_map)
  have "filter (\<lambda>y. compare_specs ?specs x y = 0) (ordered_iterate ordered)
      = map snd (filter ?P ?L)"
    by (simp add: ordered_iterate_def Let_def filter_map o_def)
  also have "\<dots> = map snd (filter ?P ?idx)" by (simp only: eq)
  also have "\<dots> = filter (\<lambda>y. compare_specs ?specs x y = 0) (map snd ?idx)"
    by (simp add: filter_map o_def del: map_snd_zip)
  also have "map snd ?idx = ?src" by simp
  finally show ?thesis .
qed

text \<open>
  Claim C3. For an ordered sequence all of whose comparators are valid, a traversal
  produces a permutation of the source that is ordered by the composite comparison of the
  keys, and the elements that compare equal to any given element under every key stand
  in the order in which the source has them. Two elements compare equal under the
  composite comparison exactly when they do under every spec; a spec added by
  \<^verbatim>\<open>then_by\<close> leaves the source alone and decides only between elements that all
  earlier specs hold equal. In particular \<open>[(1,2),(1,1),(0,5)]\<close>, ordered ascending by the
  first and then by the second component, gives \<open>[(0,5),(1,1),(1,2)]\<close>.
\<close>

theorem ordered_is_stable_multi_key_sort:
  assumes "list_all valid_spec (sort_specs ordered)"
  shows "mset (ordered_iterate ordered) = mset (ordered_source ordered)
    \<and> sorted_wrt (\<lambda>a b. compare_specs (sort_specs ordered) a b \<le> 0) (ordered_iterate ordered)
    \<and> filter (\<lambda>y. compare_specs (sort_specs ordered) x y = 0) (ordered_iterate ordered)
        = filter (\<lambda>y. compare_specs (sort_specs ordered) x y = 0) (ordered_source ordered)
    \<and> (compare_specs (sort_specs ordered) a b = 0)
        = list_all (\<lambda>spec. compare_spec spec a b = 0) (sort_specs ordered)
    \<and> ordered_source (then_by ordered key_rule desc cmp) = ordered_source ordered
    \<and> compare_specs (sort_specs (then_by ordered key_rule desc cmp)) a b
        = (if compare_specs (sort_specs ordered) a b \<noteq> 0
           then compare_specs (sort_specs ordered) a b
           else compare_spec \<lparr>key_of = key_rule, is_descending = desc, comparator = cmp\<rparr> a b)
    \<and> ordered_iterate
          (then_by (order_by [(1, 2), (1, 1), (0, 5 :: int)] fst False None) snd False None)
        = [(0, 5), (1, 1), (1, 2 :: int)]"
proof (intro conjI)
  show "mset (ordered_iterate ordered) = mset (ordered_source ordered)"
    by (rule mset_ordered_iterate)
  show "sorted_wrt (\<lambda>a b. compare_specs (sort_specs ordered) a b \<le> 0) (ordered_iterate ordered)"
    by (rule sorted_ordered_iterate[OF assms])
  show "filter (\<lambda>y. compare_specs (sort_specs ordered) x y = 0) (ordered_iterate ordered)
        = filter (\<lambda>y. compare_specs (sort_specs ordered) x y = 0) (ordered_source ordered)"
    by (rule stable_ordered_iterate[OF assms])
  show "(compare_specs (sort_specs ordered) a b = 0)
        = list_all (\<lambda>spec. compare_spec spec a b = 0) (sort_specs ordered)"
    by (rule compare_specs_eq_0)
  show "ordered_source (then_by ordered key_rule desc cmp) = ordered_source ordered"
    by (simp add: then_by_def)
  show "compare_specs (sort_specs (then_by ordered key_rule desc cmp)) a b
        = (if compare_specs (sort_specs ordered) a b \<noteq> 0
           then compare_specs (sort_specs ordered) a b
           else compare_spec \<lparr>key_of = key_rule, is_descending = desc, comparator = cmp\<rparr> a b)"
    by (simp add: then_by_def compare_specs_append)
  show "ordered_iterate
          (then_by (order_by [(1, 2), (1, 1), (0, 5 :: int)] fst False None) snd False None)
        = [(0, 5), (1, 1), (1, 2 :: int)]"
    by (simp add: ordered_iterate_def then_by_def order_by_def sort_by_def compare_indexed_def
        compare_spec_def natural_compare_def Let_def)
qed

theorem ordered_is_stable_multi_key_sort_witness:
  "list_all valid_spec
     (sort_specs (order_by [(1 :: int, ''a''), (1, ''b''), (2, ''c'')] fst False None))
   \<and> filter (\<lambda>y. fst y = 1)
       (ordered_iterate (order_by [(1 :: int, ''a''), (1, ''b''), (2, ''c'')] fst False None))
     = [(1, ''a''), (1, ''b'')]"
proof -
  have h: "list_all valid_spec
     (sort_specs (order_by [(1 :: int, ''a''), (1, ''b''), (2, ''c'')] fst False None))"
    by (simp add: order_by_def valid_spec_def)
  have c: "(\<lambda>y. compare_specs
        (sort_specs (order_by [(1 :: int, ''a''), (1, ''b''), (2, ''c'')] fst False None))
        (1, ''a'') y = 0) = (\<lambda>y. fst y = 1)"
    by (auto simp: order_by_def compare_spec_def natural_compare_def Let_def fun_eq_iff)
  from ordered_is_stable_multi_key_sort [OF h, THEN conjunct2, THEN conjunct2, THEN conjunct1,
      of "(1, ''a'')"]
  show ?thesis using h unfolding c by (simp add: order_by_def)
qed

end
